theory Spec2Isabelle
  imports Main "HOL-Library.Word"
begin

unbundle bit_operations_syntax

section \<open>The C library primitives the control socket relies on\<close>

text \<open>
  The control socket (\<^verbatim>\<open>src/unix/unix_control_socket.c\<close>) works on NUL-terminated C
  strings. A C string is modelled by its content, the characters before the terminator,
  as a \<^typ>\<open>string\<close>. Everything the C standard leaves undefined is made a value of
  \<open>fault\<close>, so that an out-of-range access of the source is a result of the model and not
  an unspecified HOL term.
\<close>

datatype fault =
    OutOfBoundsRead    \<comment> \<open>an array read outside the object, as \<^verbatim>\<open>fn[strlen(fn) - 1]\<close> on an empty \<^verbatim>\<open>fn\<close>\<close>
  | BufferOverflow     \<comment> \<open>\<^verbatim>\<open>strcat\<close> writing past the end of the destination array\<close>
  | AtoiRange          \<comment> \<open>\<^verbatim>\<open>atoi\<close> on a number that does not fit an \<^verbatim>\<open>int\<close>\<close>
  | SignedOverflow     \<comment> \<open>overflow of an \<^verbatim>\<open>int\<close> addition\<close>

definition NUL :: char where
  "NUL = CHR 0x00"

definition LF :: char where
  "LF = CHR 0x0A"

definition CR :: char where
  "CR = CHR 0x0D"

text \<open>\<^verbatim>\<open>strdup\<close>, \<^verbatim>\<open>strlen\<close> and friends stop at the first NUL of the bytes they are given.\<close>

definition c_str :: "string \<Rightarrow> string" where
  "c_str bytes = takeWhile (\<lambda>c. c \<noteq> NUL) bytes"

fun strcspn :: "string \<Rightarrow> string \<Rightarrow> nat" where
  "strcspn [] reject = 0"
| "strcspn (c # cs) reject = (if c \<in> set reject then 0 else Suc (strcspn cs reject))"

definition tolower_c :: "char \<Rightarrow> char" where
  "tolower_c c =
     (let n = (of_char c :: nat) in if 65 \<le> n \<and> n \<le> 90 then char_of (n + 32) else c)"

text \<open>\<^verbatim>\<open>strcasecmp(a, b) == 0\<close>: the two strings agree once both are lower-cased.\<close>

definition strcasecmp_eq :: "string \<Rightarrow> string \<Rightarrow> bool" where
  "strcasecmp_eq a b \<longleftrightarrow> map tolower_c a = map tolower_c b"

definition isspace_c :: "char \<Rightarrow> bool" where
  "isspace_c c \<longleftrightarrow> c = CHR '' '' \<or> c = CHR 0x09 \<or> c = CHR 0x0A \<or> c = CHR 0x0B
     \<or> c = CHR 0x0C \<or> c = CHR 0x0D"

definition isdigit_c :: "char \<Rightarrow> bool" where
  "isdigit_c c \<longleftrightarrow> 48 \<le> (of_char c :: nat) \<and> (of_char c :: nat) \<le> 57"

fun atoi_digits :: "int \<Rightarrow> string \<Rightarrow> int" where
  "atoi_digits acc [] = acc"
| "atoi_digits acc (c # cs) =
     (if isdigit_c c then atoi_digits (10 * acc + (of_char c - 48)) cs else acc)"

text \<open>
  The number \<^verbatim>\<open>atoi\<close> reads: leading white space, an optional sign, then decimal digits up
  to the first other character; no digits give 0.
\<close>

definition atoi_value :: "string \<Rightarrow> int" where
  "atoi_value s =
     (case dropWhile isspace_c s of
        [] \<Rightarrow> 0
      | c # cs \<Rightarrow>
          if c = CHR ''-'' then - atoi_digits 0 cs
          else if c = CHR ''+'' then atoi_digits 0 cs
          else atoi_digits 0 (c # cs))"

text \<open>\<^verbatim>\<open>atoi\<close> returns an \<^verbatim>\<open>int\<close> (32 bits); a value that does not fit is undefined behaviour.\<close>

definition atoi :: "string \<Rightarrow> fault + int" where
  "atoi s =
     (let v = atoi_value s
      in if - (2 ^ 31) \<le> v \<and> v < 2 ^ 31 then Inr v else Inl AtoiRange)"

text \<open>The conversion \<^verbatim>\<open>uint8_t id = atoi(...)\<close> keeps the low eight bits.\<close>

definition atoi_u8 :: "string \<Rightarrow> fault + 8 word" where
  "atoi_u8 s = (case atoi s of Inl f \<Rightarrow> Inl f | Inr v \<Rightarrow> Inr (word_of_int v))"

text \<open>\<^verbatim>\<open>"%d"\<close> of a non-negative number.\<close>

fun dec :: "nat \<Rightarrow> string" where
  "dec n =
     (if n < 10 then [''0123456789'' ! n] else dec (n div 10) @ [''0123456789'' ! (n mod 10)])"

declare dec.simps [simp del]

definition dec_int :: "int \<Rightarrow> string" where
  "dec_int i = (if i < 0 then CHR ''-'' # dec (nat (- i)) else dec (nat i))"

section \<open>Tokenising a command line\<close>

text \<open>
  \<^verbatim>\<open>ctrl_strsep(&s, " ")\<close>: \<open>None\<close> is the NULL pointer. The token runs up to the first
  separator, which is overwritten by a terminator; the rest pointer moves past it, or
  becomes NULL when the token was the last one.
\<close>

fun ctrl_strsep :: "string option \<Rightarrow> string \<Rightarrow> string option \<times> string option" where
  "ctrl_strsep None sep = (None, None)"
| "ctrl_strsep (Some s) sep =
     (let n = strcspn s sep
      in if n < length s then (Some (take n s), Some (drop (Suc n) s)) else (Some s, None))"

text \<open>
  The tokenising loop of \<^verbatim>\<open>ctrl_handle_command\<close>. \<^verbatim>\<open>xargv\<close> has 512 entries, all NULL
  at first; the model keeps the entries written so far, so \<open>length xargv\<close> is the
  \<^verbatim>\<open>cmdargc\<close> of the loop. The result is \<^verbatim>\<open>xargv\<close> and the decremented \<^verbatim>\<open>cmdargc\<close>.
\<close>

function ctrl_tokenize :: "string option \<Rightarrow> string list \<Rightarrow> string list \<times> nat" where
  "ctrl_tokenize linespn xargv =
     (case ctrl_strsep linespn '' '' of
        (None, rest) \<Rightarrow> (xargv, length xargv)
      | (Some tok, rest) \<Rightarrow>
          if Suc (length xargv) \<ge> 512 then (xargv @ [tok], length xargv)
          else ctrl_tokenize rest (xargv @ [tok]))"
  by pat_completeness auto
termination
  apply (relation "measure (\<lambda>(linespn, xargv). case linespn of None \<Rightarrow> 0 | Some s \<Rightarrow> Suc (length s))")
   apply simp
  subgoal for linespn xargv x tok rest
    by (cases linespn) (auto simp: Let_def split: if_splits)
  done

declare ctrl_tokenize.simps [simp del]

text \<open>\<^verbatim>\<open>xargv[i]\<close>, NULL where nothing was stored.\<close>

definition arg :: "string list \<Rightarrow> nat \<Rightarrow> string option" where
  "arg xargv i = (if i < length xargv then Some (xargv ! i) else None)"


section \<open>The quoted-path parser of the three-argument media commands\<close>

text \<open>
  \<^verbatim>\<open>fn\<close> is a \<^verbatim>\<open>char[PATH_MAX]\<close> array holding a C string. \<^verbatim>\<open>strcat\<close> needs room for the
  content and the terminator; \<^verbatim>\<open>fn[strlen(fn) - 1]\<close> is inside the array only when
  \<^verbatim>\<open>fn\<close> is not empty (on an empty \<^verbatim>\<open>fn\<close> the index wraps to the byte before the array).
\<close>

definition strcat_fn :: "nat \<Rightarrow> string \<Rightarrow> string \<Rightarrow> fault + string" where
  "strcat_fn cap fn src =
     (if length fn + length src + 1 > cap then Inl BufferOverflow else Inr (fn @ src))"

definition last_char :: "string \<Rightarrow> fault + char" where
  "last_char fn = (if fn = [] then Inl OutOfBoundsRead else Inr (last fn))"

definition is_quote :: "char \<Rightarrow> bool" where
  "is_quote c \<longleftrightarrow> c = CHR 0x27 \<or> c = CHR 0x22"

text \<open>\<^verbatim>\<open>tok[0] == '\'' || tok[0] == '"'\<close>; on an empty token \<^verbatim>\<open>tok[0]\<close> is the terminator.\<close>

definition starts_quoted :: "string \<Rightarrow> bool" where
  "starts_quoted tok \<longleftrightarrow> (case tok of [] \<Rightarrow> False | c # cs \<Rightarrow> is_quote c)"

text \<open>
  The loop of the quoted branch, from \<^verbatim>\<open>curarg\<close> on. The state is \<^verbatim>\<open>fn\<close>, \<^verbatim>\<open>err\<close> and
  \<^verbatim>\<open>*wp\<close>; \<^verbatim>\<open>*wp\<close> is \<open>None\<close> as long as nothing was stored in the caller's
  uninitialised \<^verbatim>\<open>wp\<close>.
\<close>

function media3_quoted ::
  "nat \<Rightarrow> string list \<Rightarrow> nat \<Rightarrow> nat \<Rightarrow> string \<Rightarrow> bool \<Rightarrow> 8 word option
     \<Rightarrow> fault + (string \<times> 8 word option \<times> bool)" where
  "media3_quoted pmax xargv cmdargc curarg fn err wp =
     (if curarg < cmdargc then
        let tok = xargv ! curarg;
            err' = (err \<or> length fn + length tok \<ge> pmax)
        in case strcat_fn pmax fn (if starts_quoted tok then tl tok else tok) of
             Inl f \<Rightarrow> Inl f
           | Inr fn1 \<Rightarrow>
               (case last_char fn1 of
                  Inl f \<Rightarrow> Inl f
                | Inr c \<Rightarrow>
                    if is_quote c then
                      (if curarg + 1 < cmdargc then
                         (case atoi_u8 (xargv ! (curarg + 1)) of
                            Inl f \<Rightarrow> Inl f
                          | Inr w \<Rightarrow> Inr (fn1, Some w, err'))
                       else Inr (fn1, wp, err'))
                    else
                      (case strcat_fn pmax fn1 '' '' of
                         Inl f \<Rightarrow> Inl f
                       | Inr fn2 \<Rightarrow> media3_quoted pmax xargv cmdargc (curarg + 1) fn2 err' wp))
      else Inr (fn, wp, err))"
  by pat_completeness auto
termination
  by (relation "measure (\<lambda>(pmax, xargv, cmdargc, curarg, fn, err, wp). cmdargc - curarg)") auto

declare media3_quoted.simps [simp del]

text \<open>
  \<^verbatim>\<open>ctrl_process_media_commands_3(&id, fn, &wp, xargv, cmdargc)\<close>, called with a zeroed
  \<^verbatim>\<open>fn\<close>. The result is \<^verbatim>\<open>(id, fn, wp, err)\<close>.
\<close>

definition ctrl_process_media_commands_3 ::
  "nat \<Rightarrow> string \<Rightarrow> string list \<Rightarrow> nat \<Rightarrow> fault + (8 word \<times> string \<times> 8 word option \<times> bool)" where
  "ctrl_process_media_commands_3 pmax fn xargv cmdargc =
     (case atoi_u8 (xargv ! 1) of
        Inl f \<Rightarrow> Inl f
      | Inr id8 \<Rightarrow>
          (case (if starts_quoted (xargv ! 2) then
                   media3_quoted pmax xargv cmdargc 2 fn False None
                 else if length (xargv ! 2) < pmax then
                   (case atoi_u8 (xargv ! 3) of
                      Inl f \<Rightarrow> Inl f
                    | Inr w \<Rightarrow> Inr (xargv ! 2, Some w, False))
                 else Inr (fn, None, True)) of
             Inl f \<Rightarrow> Inl f
           | Inr (fn1, wp, err) \<Rightarrow>
               (case last_char fn1 of
                  Inl f \<Rightarrow> Inl f
                | Inr c \<Rightarrow> Inr (id8, if is_quote c then butlast fn1 else fn1, wp, err))))"


section \<open>The host the control socket talks to\<close>

text \<open>
  The device subsystems, the machine status table, the monitors and the size constants
  are declared in headers outside this file. The size constants are taken as parameters;
  the collaborators' calls are recorded as \<open>action\<close>s in the order the handler makes them.
\<close>

record limits =
  FDD_NUM :: nat
  CDROM_NUM :: nat
  HDD_BUS_USB :: nat
  RDISK_NUM :: nat
  MO_NUM :: nat
  NET_CARD_MAX :: nat
  MONITORS_NUM :: nat
  PATH_MAX :: nat

record led_status =
  active :: bool
  write_active :: bool

record media_status = led_status +
  empty :: bool

record machine_status_t =
  fdd :: "media_status list"
  cdrom :: "media_status list"
  hdd :: "led_status list"
  rdisk :: "media_status list"
  mo :: "media_status list"
  net :: "led_status list"

text \<open>
  A monitor: what \<^verbatim>\<open>video_get_type_monitor\<close> and \<^verbatim>\<open>video_get_blit_rect\<close> return for it,
  and its \<^verbatim>\<open>target_buffer\<close> (\<open>None\<close> is the NULL pointer), read as bytes:
  \<open>fb y k\<close> is byte \<open>k\<close> of the row \<^verbatim>\<open>line[y]\<close>, four bytes to a pixel.
\<close>

record monitor_t =
  video_type :: int
  blit_rect :: "int \<times> int \<times> int \<times> int"
  target_buffer :: "(int \<Rightarrow> int \<Rightarrow> 8 word) option"

record host =
  lim :: limits
  machine_status :: machine_status_t
  dopause :: int
  EMU_NAME :: string
  EMU_VERSION_FULL :: string
  VIDEO_FLAG_TYPE_NONE :: int
  monitors :: "nat \<Rightarrow> monitor_t"

datatype action =
    Send string                 \<comment> \<open>\<^verbatim>\<open>ctrl_send\<close> to the client that sent the command\<close>
  | Send_binary "8 word list"   \<comment> \<open>\<^verbatim>\<open>ctrl_send_binary\<close> to that client\<close>
  | Broadcast string            \<comment> \<open>\<^verbatim>\<open>ctrl_broadcast\<close>\<close>
  | Plat_pause int
  | Pc_reset_hard
  | Plat_power_off
  | Plat_mouse_capture int
  | Cdrom_mount "8 word" string
  | Floppy_mount "8 word" string "8 word option"
  | Floppy_eject "8 word"
  | Mo_mount "8 word" string "8 word option"
  | Mo_eject "8 word"
  | Rdisk_mount "8 word" string "8 word option"
  | Rdisk_eject "8 word"
  | Cartridge_mount "8 word" string "8 word option"
  | Cartridge_eject "8 word"

text \<open>
  The write-protect argument of a mount is \<open>None\<close> when the handler passes its
  \<^verbatim>\<open>wp\<close> variable without ever having stored a value in it.
\<close>

section \<open>Status lines\<close>

definition led_name :: "bool \<Rightarrow> bool \<Rightarrow> string" where
  "led_name w a = (if w then ''write'' else if a then ''read'' else ''idle'')"

definition led_line :: "string \<Rightarrow> nat \<Rightarrow> bool \<Rightarrow> bool \<Rightarrow> string" where
  "led_line cls i w a = ''!led '' @ cls @ '' '' @ dec i @ '' '' @ led_name w a @ [LF]"

definition media_line :: "string \<Rightarrow> nat \<Rightarrow> bool \<Rightarrow> string" where
  "media_line cls i e =
     ''!media '' @ cls @ '' '' @ dec i @ '' '' @ (if e then ''ejected'' else ''inserted'') @ [LF]"

definition paused_line :: "int \<Rightarrow> string" where
  "paused_line p = ''!paused '' @ (if p \<noteq> 0 then ''1'' else ''0'') @ [LF]"

definition status_led_media :: "string \<Rightarrow> nat \<Rightarrow> media_status list \<Rightarrow> action list" where
  "status_led_media cls n st =
     concat (map (\<lambda>i. [Send (led_line cls i (write_active (st ! i)) (active (st ! i))),
                        Send (media_line cls i (empty (st ! i)))]) [0..<n])"

definition status_led :: "string \<Rightarrow> nat \<Rightarrow> led_status list \<Rightarrow> action list" where
  "status_led cls n st =
     map (\<lambda>i. Send (led_line cls i (write_active (st ! i)) (active (st ! i)))) [0..<n]"

definition ctrl_send_status :: "host \<Rightarrow> action list" where
  "ctrl_send_status h =
     status_led_media ''fdd'' (FDD_NUM (lim h)) (fdd (machine_status h))
     @ status_led_media ''cdrom'' (CDROM_NUM (lim h)) (cdrom (machine_status h))
     @ status_led ''hdd'' (HDD_BUS_USB (lim h)) (hdd (machine_status h))
     @ status_led_media ''rdisk'' (RDISK_NUM (lim h)) (rdisk (machine_status h))
     @ status_led_media ''mo'' (MO_NUM (lim h)) (mo (machine_status h))
     @ status_led ''net'' (NET_CARD_MAX (lim h)) (net (machine_status h))
     @ [Send (paused_line (dopause h))]"

section \<open>The screen checksum\<close>

text \<open>One round of the inner loop: \<^verbatim>\<open>crc = (crc >> 1) ^ ((-(crc & 1)) & 0xEDB88320)\<close>.\<close>

definition crc_round :: "32 word \<Rightarrow> 32 word" where
  "crc_round crc = drop_bit 1 crc XOR ((- (crc AND 1)) AND 0xEDB88320)"

text \<open>\<^verbatim>\<open>crc ^= row[x * 4 + c]\<close> followed by the eight rounds.\<close>

definition crc_byte :: "32 word \<Rightarrow> 8 word \<Rightarrow> 32 word" where
  "crc_byte crc b = (crc_round ^^ 8) (crc XOR ucast b)"

text \<open>
  The three nested loops over the region. \<open>row k\<close> is the byte \<^verbatim>\<open>row[k]\<close> of the row
  pointer \<^verbatim>\<open>(const uint8_t *) &line[y][bx + rx]\<close>, which is byte \<open>(bx + rx) * 4 + k\<close>
  of the row.
\<close>

definition crc_pixel :: "(int \<Rightarrow> 8 word) \<Rightarrow> 32 word \<Rightarrow> nat \<Rightarrow> 32 word" where
  "crc_pixel row crc x = foldl (\<lambda>crc c. crc_byte crc (row (int x * 4 + int c))) crc [0..<3]"

definition crc_row :: "(int \<Rightarrow> int \<Rightarrow> 8 word) \<Rightarrow> int \<Rightarrow> int \<Rightarrow> 32 word \<Rightarrow> int \<Rightarrow> 32 word" where
  "crc_row fb x0 rw crc y = foldl (crc_pixel (\<lambda>k. fb y (x0 * 4 + k))) crc [0..<nat rw]"

definition screencrc_region ::
  "(int \<Rightarrow> int \<Rightarrow> 8 word) \<Rightarrow> int \<Rightarrow> int \<Rightarrow> int \<Rightarrow> int \<Rightarrow> 32 word" where
  "screencrc_region fb y0 x0 rw rh =
     foldl (crc_row fb x0 rw) 0xFFFFFFFF (map (\<lambda>j. y0 + int j) [0..<nat rh]) XOR 0xFFFFFFFF"

text \<open>
  The checksum as the specification words it: the bit-reflected CRC-32 with polynomial
  \<^verbatim>\<open>0xEDB88320\<close>, initial value \<^verbatim>\<open>0xFFFFFFFF\<close> and final XOR \<^verbatim>\<open>0xFFFFFFFF\<close>, taking
  one byte at a time and, for each of its eight bits, shifting right and XOR-ing the
  polynomial in when the bit shifted out was set.
\<close>

definition crc32_shift :: "32 word \<Rightarrow> 32 word" where
  "crc32_shift crc = (if bit crc 0 then drop_bit 1 crc XOR 0xEDB88320 else drop_bit 1 crc)"

definition crc32_spec :: "8 word list \<Rightarrow> 32 word" where
  "crc32_spec bytes =
     foldl (\<lambda>crc b. (crc32_shift ^^ 8) (crc XOR ucast b)) 0xFFFFFFFF bytes XOR 0xFFFFFFFF"

text \<open>
  The blue, green and red bytes of the pixels of a region, row by row: the first three
  of the four bytes of each pixel.
\<close>

definition region_bgr :: "(int \<Rightarrow> int \<Rightarrow> 8 word) \<Rightarrow> int \<Rightarrow> int \<Rightarrow> int \<Rightarrow> int \<Rightarrow> 8 word list" where
  "region_bgr fb y0 x0 rw rh =
     concat (map (\<lambda>j. concat (map (\<lambda>i. [fb (y0 + int j) ((x0 + int i) * 4),
                                          fb (y0 + int j) ((x0 + int i) * 4 + 1),
                                          fb (y0 + int j) ((x0 + int i) * 4 + 2)])
                                [0..<nat rw]))
                 [0..<nat rh])"

text \<open>\<^verbatim>\<open>"%08X"\<close>: eight upper-case hexadecimal digits.\<close>

definition hex8 :: "32 word \<Rightarrow> string" where
  "hex8 w = map (\<lambda>i. ''0123456789ABCDEF'' ! unat (drop_bit (4 * i) w AND 15)) [7, 6, 5, 4, 3, 2, 1, 0]"

text \<open>An \<^verbatim>\<open>int\<close> addition; a sum outside the 32-bit range is undefined behaviour.\<close>

definition add_int :: "int \<Rightarrow> int \<Rightarrow> fault + int" where
  "add_int a b = (if - (2 ^ 31) \<le> a + b \<and> a + b < 2 ^ 31 then Inr (a + b) else Inl SignedOverflow)"


section \<open>The command handler\<close>

text \<open>
  The result of a command is the list of actions it performs, or the fault it runs into.
  The five eject branches of \<^verbatim>\<open>ctrl_handle_command\<close> are the same text up to the unit
  count, the collaborator called and the class name of the reply, and so are the four
  three-argument load branches; each family is one definition taking these as parameters.
\<close>

definition eject_branch ::
  "nat \<Rightarrow> (8 word \<Rightarrow> action) \<Rightarrow> string \<Rightarrow> string list \<Rightarrow> fault + action list" where
  "eject_branch num eject cls xargv =
     (case atoi_u8 (xargv ! 1) of
        Inl f \<Rightarrow> Inl f
      | Inr id8 \<Rightarrow>
          if unat id8 \<ge> num then Inr [Send (''ERR invalid drive id'' @ [LF])]
          else Inr [eject id8, Send (''OK '' @ cls @ '' '' @ dec (unat id8) @ '' ejected'' @ [LF])])"

definition load3_branch ::
  "nat \<Rightarrow> nat \<Rightarrow> (8 word \<Rightarrow> string \<Rightarrow> 8 word option \<Rightarrow> action) \<Rightarrow> string \<Rightarrow> string list \<Rightarrow> nat
     \<Rightarrow> fault + action list" where
  "load3_branch pmax num mount cls xargv cmdargc =
     (if arg xargv 1 = None \<or> arg xargv 2 = None then Inr [Send (''ERR missing arguments'' @ [LF])]
      else
        case ctrl_process_media_commands_3 pmax [] xargv cmdargc of
          Inl f \<Rightarrow> Inl f
        | Inr (id8, fn, wp, err) \<Rightarrow>
            if err \<or> unat id8 \<ge> num then Inr [Send (''ERR invalid arguments'' @ [LF])]
            else
              (case last_char fn of
                 Inl f \<Rightarrow> Inl f
               | Inr c \<Rightarrow>
                   Inr [mount id8 (if is_quote c then butlast fn else fn) wp,
                        Send (''OK '' @ cls @ '' '' @ dec (unat id8) @ '' loaded'' @ [LF])]))"

text \<open>
  The path reassembly loop of \<^verbatim>\<open>cdload\<close>, from index \<open>i\<close> on; \<open>None\<close> is the early
  return with \<^verbatim>\<open>ERR path too long\<close>.
\<close>

function cdload_path :: "nat \<Rightarrow> string list \<Rightarrow> nat \<Rightarrow> nat \<Rightarrow> string \<Rightarrow> fault + string option" where
  "cdload_path pmax xargv cmdargc i fn =
     (if i < cmdargc then
        if length fn + length (xargv ! i) + 1 \<ge> pmax then Inr None
        else
          (case (if i > 2 then strcat_fn pmax fn '' '' else Inr fn) of
             Inl f \<Rightarrow> Inl f
           | Inr fn1 \<Rightarrow>
               (case strcat_fn pmax fn1 (xargv ! i) of
                  Inl f \<Rightarrow> Inl f
                | Inr fn2 \<Rightarrow> cdload_path pmax xargv cmdargc (i + 1) fn2))
      else Inr (Some fn))"
  by pat_completeness auto
termination
  by (relation "measure (\<lambda>(pmax, xargv, cmdargc, i, fn). cmdargc - i)") auto

declare cdload_path.simps [simp del]

definition cdload_branch :: "limits \<Rightarrow> string list \<Rightarrow> nat \<Rightarrow> fault + action list" where
  "cdload_branch l xargv cmdargc =
     (if arg xargv 1 = None \<or> arg xargv 2 = None then Inr [Send (''ERR missing arguments'' @ [LF])]
      else
        case atoi_u8 (xargv ! 1) of
          Inl f \<Rightarrow> Inl f
        | Inr id8 \<Rightarrow>
            if unat id8 \<ge> CDROM_NUM l then Inr [Send (''ERR invalid drive id'' @ [LF])]
            else
              (case cdload_path (PATH_MAX l) xargv cmdargc 2 [] of
                 Inl f \<Rightarrow> Inl f
               | Inr None \<Rightarrow> Inr [Send (''ERR path too long'' @ [LF])]
               | Inr (Some fn) \<Rightarrow>
                   Inr [Cdrom_mount id8 fn,
                        Send (''OK cdrom '' @ dec (unat id8) @ '' loaded'' @ [LF])]))"

text \<open>
  The checks \<^verbatim>\<open>screenshot\<close> and \<^verbatim>\<open>screencrc\<close> share: the monitor index, the monitor type
  and the blit rectangle. \<open>Inr (Inl reply)\<close> is the early return with that reply.
\<close>

definition resolve_monitor ::
  "host \<Rightarrow> string list \<Rightarrow> nat
     \<Rightarrow> fault + (string + (int \<times> int \<times> int \<times> int) \<times> (int \<Rightarrow> int \<Rightarrow> 8 word))" where
  "resolve_monitor h xargv cmdargc =
     (case (if cmdargc \<ge> 2 then atoi (xargv ! 1) else Inr 0) of
        Inl f \<Rightarrow> Inl f
      | Inr mon_idx \<Rightarrow>
          if mon_idx < 0 \<or> mon_idx \<ge> int (MONITORS_NUM (lim h)) then
            Inr (Inl (''ERR invalid monitor index'' @ [LF]))
          else if video_type (monitors h (nat mon_idx)) = VIDEO_FLAG_TYPE_NONE h then
            Inr (Inl (''ERR monitor not active'' @ [LF]))
          else
            (case blit_rect (monitors h (nat mon_idx)) of
               (bx, by, bw, bh) \<Rightarrow>
                 if bw \<le> 0 \<or> bh \<le> 0 then Inr (Inl (''ERR no framebuffer available'' @ [LF]))
                 else
                   (case target_buffer (monitors h (nat mon_idx)) of
                      None \<Rightarrow> Inr (Inl (''ERR no framebuffer available'' @ [LF]))
                    | Some fb \<Rightarrow> Inr (Inr ((bx, by, bw, bh), fb)))))"

definition screenshot_branch :: "host \<Rightarrow> string list \<Rightarrow> nat \<Rightarrow> fault + action list" where
  "screenshot_branch h xargv cmdargc =
     (case resolve_monitor h xargv cmdargc of
        Inl f \<Rightarrow> Inl f
      | Inr (Inl reply) \<Rightarrow> Inr [Send reply]
      | Inr (Inr ((bx, by, bw, bh), fb)) \<Rightarrow>
          Inr (Send (''OK '' @ dec_int bw @ '' '' @ dec_int bh @ '' ''
                     @ dec (nat bw * nat bh * 4) @ [LF])
               # map (\<lambda>j. Send_binary (map (\<lambda>k. fb (by + int j) (bx * 4 + int k)) [0..<nat bw * 4]))
                   [0..<nat bh]))"

text \<open>
  The optional region of \<^verbatim>\<open>screencrc\<close> and its clamping to the visible area; \<open>None\<close> is
  the early return with \<^verbatim>\<open>ERR region out of bounds\<close>.
\<close>

definition screencrc_args :: "string list \<Rightarrow> nat \<Rightarrow> int \<Rightarrow> int \<Rightarrow> fault + (int \<times> int \<times> int \<times> int)" where
  "screencrc_args xargv cmdargc bw bh =
     (if cmdargc \<ge> 6 then
        (case atoi (xargv ! 2) of Inl f \<Rightarrow> Inl f | Inr rx \<Rightarrow>
         case atoi (xargv ! 3) of Inl f \<Rightarrow> Inl f | Inr ry \<Rightarrow>
         case atoi (xargv ! 4) of Inl f \<Rightarrow> Inl f | Inr rw \<Rightarrow>
         case atoi (xargv ! 5) of Inl f \<Rightarrow> Inl f | Inr rh \<Rightarrow> Inr (rx, ry, rw, rh))
      else Inr (0, 0, bw, bh))"

definition screencrc_clamp ::
  "int \<Rightarrow> int \<Rightarrow> int \<times> int \<times> int \<times> int \<Rightarrow> fault + (int \<times> int \<times> int \<times> int) option" where
  "screencrc_clamp bw bh r =
     (case r of (rx0, ry0, rw0, rh0) \<Rightarrow>
        let rx = (if rx0 < 0 then 0 else rx0);
            ry = (if ry0 < 0 then 0 else ry0)
        in case add_int rx rw0 of Inl f \<Rightarrow> Inl f | Inr sx \<Rightarrow>
           let rw = (if sx > bw then bw - rx else rw0)
           in case add_int ry rh0 of Inl f \<Rightarrow> Inl f | Inr sy \<Rightarrow>
              let rh = (if sy > bh then bh - ry else rh0)
              in if rw \<le> 0 \<or> rh \<le> 0 then Inr None else Inr (Some (rx, ry, rw, rh)))"

definition screencrc_branch :: "host \<Rightarrow> string list \<Rightarrow> nat \<Rightarrow> fault + action list" where
  "screencrc_branch h xargv cmdargc =
     (case resolve_monitor h xargv cmdargc of
        Inl f \<Rightarrow> Inl f
      | Inr (Inl reply) \<Rightarrow> Inr [Send reply]
      | Inr (Inr ((bx, by, bw, bh), fb)) \<Rightarrow>
          (case screencrc_args xargv cmdargc bw bh of
             Inl f \<Rightarrow> Inl f
           | Inr r \<Rightarrow>
               (case screencrc_clamp bw bh r of
                  Inl f \<Rightarrow> Inl f
                | Inr None \<Rightarrow> Inr [Send (''ERR region out of bounds'' @ [LF])]
                | Inr (Some (rx, ry, rw, rh)) \<Rightarrow>
                    Inr [Send (''OK '' @ hex8 (screencrc_region fb (by + ry) (bx + rx) rw rh)
                               @ '' '' @ dec_int bw @ '' '' @ dec_int bh @ [LF])])))"

definition help_text :: string where
  "help_text =
     ''Commands:'' @ [LF]
     @ ''  cdload <id> <path>         - mount CD-ROM image'' @ [LF]
     @ ''  fddload <id> <path> <wp>   - mount floppy (wp=0|1)'' @ [LF]
     @ ''  moload <id> <path> <wp>    - mount MO image'' @ [LF]
     @ ''  rdiskload <id> <path> <wp> - mount removable disk'' @ [LF]
     @ ''  cartload <id> <path> <wp>  - mount cartridge'' @ [LF]
     @ ''  cdeject <id>               - eject CD-ROM'' @ [LF]
     @ ''  fddeject <id>              - eject floppy'' @ [LF]
     @ ''  moeject <id>               - eject MO'' @ [LF]
     @ ''  rdiskeject <id>            - eject removable disk'' @ [LF]
     @ ''  carteject <id>             - eject cartridge'' @ [LF]
     @ ''  pause                      - toggle pause'' @ [LF]
     @ ''  hardreset                  - hard reset'' @ [LF]
     @ ''  status                     - query all LED/media state'' @ [LF]
     @ ''  screenshot [monitor]       - raw BGRA framebuffer dump'' @ [LF]
     @ ''  screencrc [mon [x y w h]]  - CRC-32 of screen region'' @ [LF]
     @ ''  mousecapture               - capture mouse'' @ [LF]
     @ ''  mouserelease               - release mouse'' @ [LF]
     @ ''  version                    - print version'' @ [LF]
     @ ''  exit                       - exit emulator'' @ [LF]
     @ ''OK'' @ [LF]"

text \<open>
  The chain of comparisons on \<^verbatim>\<open>xargv[0]\<close>, in the order of the source.
  \<^verbatim>\<open>plat_pause\<close> is outside this file. Modelled from the spec: the pause command toggles
  the host pause flag, so the flag read after \<^verbatim>\<open>plat_pause(dopause ^ 1)\<close> is the value
  passed. The replies built with \<^verbatim>\<open>snprintf\<close> are cut to the size of their buffer.
\<close>

definition ctrl_dispatch :: "host \<Rightarrow> string list \<Rightarrow> nat \<Rightarrow> fault + action list" where
  "ctrl_dispatch h xargv cmdargc =
     (let cmd = xargv ! 0 in
      if strcasecmp_eq cmd ''status'' then Inr (ctrl_send_status h @ [Send (''OK'' @ [LF])])
      else if strcasecmp_eq cmd ''pause'' then
        (let p = dopause h XOR 1
         in Inr [Plat_pause p,
                 Send (''OK '' @ (if p \<noteq> 0 then ''paused'' else ''unpaused'') @ [LF]),
                 Broadcast (paused_line p)])
      else if strcasecmp_eq cmd ''hardreset'' then Inr [Pc_reset_hard, Send (''OK hard reset'' @ [LF])]
      else if strcasecmp_eq cmd ''exit'' then Inr [Send (''OK exiting'' @ [LF]), Plat_power_off]
      else if strcasecmp_eq cmd ''version'' then
        Inr [Send (take 255 (''OK '' @ EMU_NAME h @ '' '' @ EMU_VERSION_FULL h @ [LF]))]
      else if strcasecmp_eq cmd ''cdload'' \<and> cmdargc \<ge> 3 then cdload_branch (lim h) xargv cmdargc
      else if strcasecmp_eq cmd ''cdeject'' \<and> cmdargc \<ge> 2 then
        eject_branch (CDROM_NUM (lim h)) (\<lambda>i. Cdrom_mount i []) ''cdrom'' xargv
      else if strcasecmp_eq cmd ''fddload'' \<and> cmdargc \<ge> 4 then
        load3_branch (PATH_MAX (lim h)) (FDD_NUM (lim h)) Floppy_mount ''fdd'' xargv cmdargc
      else if strcasecmp_eq cmd ''fddeject'' \<and> cmdargc \<ge> 2 then
        eject_branch (FDD_NUM (lim h)) Floppy_eject ''fdd'' xargv
      else if strcasecmp_eq cmd ''moload'' \<and> cmdargc \<ge> 4 then
        load3_branch (PATH_MAX (lim h)) (MO_NUM (lim h)) Mo_mount ''mo'' xargv cmdargc
      else if strcasecmp_eq cmd ''moeject'' \<and> cmdargc \<ge> 2 then
        eject_branch (MO_NUM (lim h)) Mo_eject ''mo'' xargv
      else if strcasecmp_eq cmd ''rdiskload'' \<and> cmdargc \<ge> 4 then
        load3_branch (PATH_MAX (lim h)) (RDISK_NUM (lim h)) Rdisk_mount ''rdisk'' xargv cmdargc
      else if strcasecmp_eq cmd ''rdiskeject'' \<and> cmdargc \<ge> 2 then
        eject_branch (RDISK_NUM (lim h)) Rdisk_eject ''rdisk'' xargv
      else if strcasecmp_eq cmd ''cartload'' \<and> cmdargc \<ge> 4 then
        load3_branch (PATH_MAX (lim h)) 2 Cartridge_mount ''cartridge'' xargv cmdargc
      else if strcasecmp_eq cmd ''carteject'' \<and> cmdargc \<ge> 2 then
        eject_branch 2 Cartridge_eject ''cartridge'' xargv
      else if strcasecmp_eq cmd ''screenshot'' then screenshot_branch h xargv cmdargc
      else if strcasecmp_eq cmd ''screencrc'' then screencrc_branch h xargv cmdargc
      else if strcasecmp_eq cmd ''mousecapture'' then
        Inr [Plat_mouse_capture 1, Send (''OK mouse captured'' @ [LF])]
      else if strcasecmp_eq cmd ''mouserelease'' then
        Inr [Plat_mouse_capture 0, Send (''OK mouse released'' @ [LF])]
      else if strcasecmp_eq cmd ''help'' then Inr [Send help_text]
      else Inr [Send (take 127 (''ERR unknown command: '' @ cmd @ [LF]))])"

text \<open>
  \<^verbatim>\<open>ctrl_handle_command(client, line)\<close>: the line is duplicated (the duplication is taken
  to succeed), cut at the first carriage return or line feed, skipped when empty, and
  split at single spaces.
\<close>

definition ctrl_parse_line :: "string \<Rightarrow> (string list \<times> nat) option" where
  "ctrl_parse_line line =
     (let linecpy = take (strcspn (c_str line) [CR, LF]) (c_str line)
      in if linecpy = [] then None else Some (ctrl_tokenize (Some linecpy) []))"

definition ctrl_handle_command :: "host \<Rightarrow> string \<Rightarrow> fault + action list" where
  "ctrl_handle_command h line =
     (case ctrl_parse_line line of
        None \<Rightarrow> Inr []
      | Some (xargv, cmdargc) \<Rightarrow> ctrl_dispatch h xargv cmdargc)"

text \<open>
  A sample host for concrete runs: four floppy drives, eight CD-ROM drives, the
  \<^verbatim>\<open>PATH_MAX\<close> of Linux, every device idle and empty, not paused, and one active monitor
  showing a 4 by 3 area whose pixels are all (blue, green, red, alpha) = (1, 2, 3, 255).
\<close>

definition sample_limits :: limits where
  "sample_limits = \<lparr>FDD_NUM = 4, CDROM_NUM = 8, HDD_BUS_USB = 8, RDISK_NUM = 4, MO_NUM = 4,
     NET_CARD_MAX = 4, MONITORS_NUM = 2, PATH_MAX = 4096\<rparr>"

definition idle_led :: led_status where
  "idle_led = \<lparr>active = False, write_active = False\<rparr>"

definition idle_media :: media_status where
  "idle_media = \<lparr>active = False, write_active = False, empty = True\<rparr>"

definition sample_status :: machine_status_t where
  "sample_status = \<lparr>fdd = replicate 4 idle_media, cdrom = replicate 8 idle_media,
     hdd = replicate 8 idle_led, rdisk = replicate 4 idle_media, mo = replicate 4 idle_media,
     net = replicate 4 idle_led\<rparr>"

definition sample_fb :: "int \<Rightarrow> int \<Rightarrow> 8 word" where
  "sample_fb y k = (if k mod 4 = 0 then 1 else if k mod 4 = 1 then 2 else if k mod 4 = 2 then 3 else 255)"

definition sample_host :: host where
  "sample_host = \<lparr>lim = sample_limits, machine_status = sample_status, dopause = 0,
     EMU_NAME = ''86Box'', EMU_VERSION_FULL = ''5.0'', VIDEO_FLAG_TYPE_NONE = 0,
     monitors = (\<lambda>i. if i = 0 then \<lparr>video_type = 1, blit_rect = (0, 0, 4, 3), target_buffer = Some sample_fb\<rparr>
                      else \<lparr>video_type = 0, blit_rect = (0, 0, 0, 0), target_buffer = None\<rparr>)\<rparr>"


section \<open>The LED polling thread\<close>

text \<open>
  The previous state the poller keeps for change detection: the \<^verbatim>\<open>prev_*\<close> arrays.
\<close>

record poll_state =
  prev_fdd :: "led_status list"
  prev_cdrom :: "led_status list"
  prev_hdd :: "led_status list"
  prev_rdisk :: "led_status list"
  prev_mo :: "led_status list"
  prev_net :: "led_status list"
  prev_fdd_empty :: "bool list"
  prev_cdrom_empty :: "bool list"
  prev_rdisk_empty :: "bool list"
  prev_mo_empty :: "bool list"

text \<open>The initialisation loops at the start of \<^verbatim>\<open>ctrl_led_poll_thread\<close>.\<close>

definition led :: "'a led_status_scheme \<Rightarrow> led_status" where
  "led s = \<lparr>active = active s, write_active = write_active s\<rparr>"

definition ctrl_led_poll_init :: "limits \<Rightarrow> machine_status_t \<Rightarrow> poll_state" where
  "ctrl_led_poll_init l ms =
     (\<lparr>prev_fdd = map (\<lambda>i. led (fdd ms ! i)) [0..<FDD_NUM l],
          prev_cdrom = map (\<lambda>i. led (cdrom ms ! i)) [0..<CDROM_NUM l],
          prev_hdd = map (\<lambda>i. led (hdd ms ! i)) [0..<HDD_BUS_USB l],
          prev_rdisk = map (\<lambda>i. led (rdisk ms ! i)) [0..<RDISK_NUM l],
          prev_mo = map (\<lambda>i. led (mo ms ! i)) [0..<MO_NUM l],
          prev_net = map (\<lambda>i. led (net ms ! i)) [0..<NET_CARD_MAX l],
          prev_fdd_empty = map (\<lambda>i. empty (fdd ms ! i)) [0..<FDD_NUM l],
          prev_cdrom_empty = map (\<lambda>i. empty (cdrom ms ! i)) [0..<CDROM_NUM l],
          prev_rdisk_empty = map (\<lambda>i. empty (rdisk ms ! i)) [0..<RDISK_NUM l],
          prev_mo_empty = map (\<lambda>i. empty (mo ms ! i)) [0..<MO_NUM l]\<rparr>)"

text \<open>
  The body of one checking loop, for unit \<open>i\<close>. The state is the class's \<^verbatim>\<open>prev\<close> array
  and the lines broadcast so far. The six loops of the source are this text up to the
  class name; the two classes without media state (hdd, net) have the first half only.
\<close>

definition check_led :: "string \<Rightarrow> bool \<Rightarrow> bool \<Rightarrow> led_status list \<times> string list \<Rightarrow> nat
    \<Rightarrow> led_status list \<times> string list" where
  "check_led cls a w st i =
     (case st of (prev, out) \<Rightarrow>
        if a \<noteq> active (prev ! i) \<or> w \<noteq> write_active (prev ! i) then
          (prev[i := \<lparr>active = a, write_active = w\<rparr>], out @ [led_line cls i w a])
        else (prev, out))"

definition check_media :: "string \<Rightarrow> bool \<Rightarrow> bool list \<times> string list \<Rightarrow> nat
    \<Rightarrow> bool list \<times> string list" where
  "check_media cls e st i =
     (case st of (prev_empty, out) \<Rightarrow>
        if e \<noteq> prev_empty ! i then (prev_empty[i := e], out @ [media_line cls i e])
        else (prev_empty, out))"

definition poll_unit_media :: "string \<Rightarrow> media_status list
    \<Rightarrow> led_status list \<times> bool list \<times> string list \<Rightarrow> nat
    \<Rightarrow> led_status list \<times> bool list \<times> string list" where
  "poll_unit_media cls ms st i =
     (case st of (prev, prev_empty, out) \<Rightarrow>
        let a = active (ms ! i); w = write_active (ms ! i); e = empty (ms ! i)
        in case check_led cls a w (prev, out) i of (prev', out1) \<Rightarrow>
           case check_media cls e (prev_empty, out1) i of (prev_empty', out2) \<Rightarrow>
             (prev', prev_empty', out2))"

definition poll_unit_led :: "string \<Rightarrow> led_status list \<Rightarrow> led_status list \<times> string list \<Rightarrow> nat
    \<Rightarrow> led_status list \<times> string list" where
  "poll_unit_led cls ms st i = check_led cls (active (ms ! i)) (write_active (ms ! i)) st i"

text \<open>
  One pass of the \<^verbatim>\<open>while (ctrl_running)\<close> loop after the delay: the new previous state
  and the lines passed to \<^verbatim>\<open>ctrl_broadcast\<close>, in order.
\<close>

definition ctrl_led_poll_tick ::
  "limits \<Rightarrow> nat \<Rightarrow> machine_status_t \<Rightarrow> poll_state \<Rightarrow> poll_state \<times> string list" where
  "ctrl_led_poll_tick l ctrl_num_clients ms ps =
     (if ctrl_num_clients = 0 then (ps, [])
      else
        case foldl (poll_unit_media ''fdd'' (fdd ms)) (prev_fdd ps, prev_fdd_empty ps, []) [0..<FDD_NUM l] of
          (pf, pfe, o1) \<Rightarrow>
        case foldl (poll_unit_media ''cdrom'' (cdrom ms)) (prev_cdrom ps, prev_cdrom_empty ps, o1) [0..<CDROM_NUM l] of
          (pc, pce, o2) \<Rightarrow>
        case foldl (poll_unit_led ''hdd'' (hdd ms)) (prev_hdd ps, o2) [0..<HDD_BUS_USB l] of
          (ph, o3) \<Rightarrow>
        case foldl (poll_unit_media ''rdisk'' (rdisk ms)) (prev_rdisk ps, prev_rdisk_empty ps, o3) [0..<RDISK_NUM l] of
          (pr, pre, o4) \<Rightarrow>
        case foldl (poll_unit_media ''mo'' (mo ms)) (prev_mo ps, prev_mo_empty ps, o4) [0..<MO_NUM l] of
          (pm, pme, o5) \<Rightarrow>
        case foldl (poll_unit_led ''net'' (net ms)) (prev_net ps, o5) [0..<NET_CARD_MAX l] of
          (pn, o6) \<Rightarrow>
            (\<lparr>prev_fdd = pf, prev_cdrom = pc, prev_hdd = ph, prev_rdisk = pr, prev_mo = pm,
              prev_net = pn, prev_fdd_empty = pfe, prev_cdrom_empty = pce,
              prev_rdisk_empty = pre, prev_mo_empty = pme\<rparr>, o6))"

text \<open>
  The lines one unit contributes to a tick, stated from the fields: one \<^verbatim>\<open>!led\<close> line
  when \<^verbatim>\<open>active\<close> or \<^verbatim>\<open>write_active\<close> differs from the previous state \<open>p\<close>, and one
  \<^verbatim>\<open>!media\<close> line when \<^verbatim>\<open>empty\<close> differs from the previous value \<open>pe\<close>.
\<close>

definition led_events :: "string \<Rightarrow> nat \<Rightarrow> led_status \<Rightarrow> 'a led_status_scheme \<Rightarrow> string list" where
  "led_events cls i p s =
     (if active s \<noteq> active p \<or> write_active s \<noteq> write_active p
      then [led_line cls i (write_active s) (active s)] else [])"

definition media_events :: "string \<Rightarrow> nat \<Rightarrow> bool \<Rightarrow> media_status \<Rightarrow> string list" where
  "media_events cls i pe s = (if empty s \<noteq> pe then [media_line cls i (empty s)] else [])"

text \<open>The \<^verbatim>\<open>prev_*\<close> arrays have the sizes of their declarations.\<close>

definition poll_state_ok :: "limits \<Rightarrow> poll_state \<Rightarrow> bool" where
  "poll_state_ok l ps \<longleftrightarrow>
     length (prev_fdd ps) = FDD_NUM l \<and> length (prev_fdd_empty ps) = FDD_NUM l
     \<and> length (prev_cdrom ps) = CDROM_NUM l \<and> length (prev_cdrom_empty ps) = CDROM_NUM l
     \<and> length (prev_hdd ps) = HDD_BUS_USB l
     \<and> length (prev_rdisk ps) = RDISK_NUM l \<and> length (prev_rdisk_empty ps) = RDISK_NUM l
     \<and> length (prev_mo ps) = MO_NUM l \<and> length (prev_mo_empty ps) = MO_NUM l
     \<and> length (prev_net ps) = NET_CARD_MAX l"

text \<open>
  A machine status for concrete runs: the sample status with floppy drive 0 busy writing.
\<close>

definition writing_status :: machine_status_t where
  "writing_status =
     sample_status\<lparr>fdd := (fdd sample_status)[0 := \<lparr>active = True, write_active = True, empty = True\<rparr>]\<rparr>"

section \<open>The server thread\<close>

definition CTRL_MAX_CLIENTS :: nat where
  "CTRL_MAX_CLIENTS = 8"

definition CTRL_BUF_SIZE :: nat where
  "CTRL_BUF_SIZE = 4096"

text \<open>
  A client: its descriptor and the first \<^verbatim>\<open>buf_len\<close> bytes of its buffer, so that
  \<open>length (buf c)\<close> is \<^verbatim>\<open>buf_len\<close>. The registry is the list of the first
  \<^verbatim>\<open>ctrl_num_clients\<close> entries of \<^verbatim>\<open>ctrl_clients\<close>.
\<close>

record ctrl_client_t =
  fd :: int
  buf :: string

datatype io =
    Write int string      \<comment> \<open>\<^verbatim>\<open>write(fd, msg, strlen(msg))\<close>\<close>
  | Close int             \<comment> \<open>\<^verbatim>\<open>close(fd)\<close>\<close>
  | Set_nonblocking int   \<comment> \<open>the \<^verbatim>\<open>fcntl\<close> calls on an accepted descriptor\<close>
  | Handle int string     \<comment> \<open>\<^verbatim>\<open>ctrl_handle_command(c, start)\<close> for the client with this descriptor\<close>

definition ctrl_remove_client :: "int \<Rightarrow> ctrl_client_t list \<Rightarrow> ctrl_client_t list \<times> io list" where
  "ctrl_remove_client idx cs =
     (if idx < 0 \<or> idx \<ge> int (length cs) then (cs, [])
      else (take (nat idx) cs @ drop (Suc (nat idx)) cs,
            if fd (cs ! nat idx) \<ge> 0 then [Close (fd (cs ! nat idx))] else []))"

text \<open>The handling of a ready listening socket, given what \<^verbatim>\<open>accept\<close> returned.\<close>

definition ctrl_accept :: "int \<Rightarrow> ctrl_client_t list \<Rightarrow> ctrl_client_t list \<times> io list" where
  "ctrl_accept client_fd cs =
     (if client_fd \<ge> 0 then
        if length cs \<ge> CTRL_MAX_CLIENTS then
          (cs, [Write client_fd (''ERR too many clients'' @ [LF]), Close client_fd])
        else (cs @ [\<lparr>fd = client_fd, buf = []\<rparr>], [Set_nonblocking client_fd])
      else (cs, []))"

text \<open>
  The line loop over the buffer content from \<^verbatim>\<open>start\<close> on: \<^verbatim>\<open>strchr(start, '\n')\<close> looks
  for a line feed before the first NUL. The result is the lines handed to
  \<^verbatim>\<open>ctrl_handle_command\<close> and the bytes from the final \<^verbatim>\<open>start\<close> to the end of the data.
  (\<^verbatim>\<open>ctrl_handle_command\<close> never assigns \<^verbatim>\<open>c->fd\<close>, so the loop's check of it never
  leaves the loop.)
\<close>

function ctrl_process_lines :: "string \<Rightarrow> string list \<times> string" where
  "ctrl_process_lines start =
     (let n = strcspn (c_str start) [LF]
      in if n < length (c_str start) then
           (case ctrl_process_lines (drop (Suc n) start) of
              (ls, remaining) \<Rightarrow> (take n start # ls, remaining))
         else ([], start))"
  by pat_completeness auto
termination
proof (relation "measure length")
  show "wf (measure length)" by simp
next
  fix start :: string and x
  assume "x = strcspn (c_str start) [LF]" "x < length (c_str start)"
  moreover have "length (c_str start) \<le> length start"
    unfolding c_str_def by (rule length_takeWhile_le)
  ultimately show "(drop (Suc x) start, start) \<in> measure length" by simp
qed

declare ctrl_process_lines.simps [simp del]

text \<open>
  What the loop over the clients does for a client whose descriptor is ready. \<open>avail\<close> is
  the data waiting in the socket: \<^verbatim>\<open>read\<close> returns its first \<^verbatim>\<open>space\<close> bytes, and nothing
  (\<open>n \<le> 0\<close>) when there is none, at end of file or on an error. \<open>None\<close> is the call of
  \<^verbatim>\<open>ctrl_remove_client\<close>; otherwise the result is the client, the lines handled and the
  data left in the socket.
\<close>

definition ctrl_client_read ::
  "ctrl_client_t \<Rightarrow> string \<Rightarrow> (ctrl_client_t \<times> string list \<times> string) option" where
  "ctrl_client_read c avail =
     (let space = int CTRL_BUF_SIZE - int (length (buf c)) - 1
      in if space \<le> 0 then None
         else
           let got = take (nat space) avail
           in if int (length got) \<le> 0 then None
              else case ctrl_process_lines (buf c @ got) of
                     (ls, remaining) \<Rightarrow> Some (c\<lparr>buf := remaining\<rparr>, ls, drop (nat space) avail))"

text \<open>
  The loop over the clients from index \<open>i\<close> on. \<open>readfds d\<close> is \<open>None\<close> when descriptor
  \<open>d\<close> is not in the ready set, and the data waiting in its socket otherwise.
\<close>

function ctrl_serve_clients ::
  "(int \<Rightarrow> string option) \<Rightarrow> nat \<Rightarrow> ctrl_client_t list \<Rightarrow> ctrl_client_t list \<times> io list" where
  "ctrl_serve_clients readfds i cs =
     (if i < length cs then
        (case (if fd (cs ! i) < 0 then None else readfds (fd (cs ! i))) of
           None \<Rightarrow> ctrl_serve_clients readfds (Suc i) cs
         | Some avail \<Rightarrow>
             (case ctrl_client_read (cs ! i) avail of
                None \<Rightarrow>
                  (case ctrl_remove_client (int i) cs of
                     (cs', io1) \<Rightarrow>
                       (case ctrl_serve_clients readfds i cs' of (cs'', io2) \<Rightarrow> (cs'', io1 @ io2)))
              | Some (c', ls, left) \<Rightarrow>
                  (case ctrl_serve_clients readfds (Suc i) (cs[i := c']) of
                     (cs'', io2) \<Rightarrow> (cs'', map (Handle (fd c')) ls @ io2))))
      else (cs, []))"
  by pat_completeness auto
termination
  by (relation "measure (\<lambda>(readfds, i, cs). length cs - i)")
     (auto simp: ctrl_remove_client_def split: if_splits)

declare ctrl_serve_clients.simps [simp del]

text \<open>
  What \<^verbatim>\<open>select\<close> reports to one pass of the server loop: an error (interrupted or not),
  a timeout, or a ready set, given by what \<^verbatim>\<open>accept\<close> returns when the listening socket is
  in it (\<open>None\<close> when it is not) and by the clients' descriptors as above.
\<close>

datatype wakeup =
    Select_failed bool
  | Select_timeout
  | Select_ready "int option" "int \<Rightarrow> string option"

text \<open>One pass of the server loop: the registry, the calls made, and whether the loop goes on.\<close>

fun ctrl_server_pass :: "ctrl_client_t list \<Rightarrow> wakeup \<Rightarrow> ctrl_client_t list \<times> io list \<times> bool" where
  "ctrl_server_pass cs (Select_failed eintr) = (cs, [], eintr)"
| "ctrl_server_pass cs Select_timeout = (cs, [], True)"
| "ctrl_server_pass cs (Select_ready listening readfds) =
     (case (case listening of None \<Rightarrow> (cs, []) | Some client_fd \<Rightarrow> ctrl_accept client_fd cs) of
        (cs1, io1) \<Rightarrow>
          (case ctrl_serve_clients readfds 0 cs1 of (cs2, io2) \<Rightarrow> (cs2, io1 @ io2, True)))"

text \<open>
  The server loop over a list of wake-ups, from the empty registry that
  \<^verbatim>\<open>control_socket_init\<close> sets up.
\<close>

fun ctrl_server_run :: "ctrl_client_t list \<Rightarrow> wakeup list \<Rightarrow> ctrl_client_t list" where
  "ctrl_server_run cs [] = cs"
| "ctrl_server_run cs (w # ws) =
     (case ctrl_server_pass cs w of
        (cs', out, go_on) \<Rightarrow> if go_on then ctrl_server_run cs' ws else cs')"

text \<open>
  One client's connection followed through the wake-ups on which its descriptor is ready.
  \<open>pending\<close> is the data waiting in the socket; while there is some the descriptor stays
  ready, and otherwise the next wake-up comes with the next arrival (an empty arrival is
  end of file or an error). The result is the client, \<open>None\<close> once it has been removed,
  and the lines handed to \<^verbatim>\<open>ctrl_handle_command\<close>.
\<close>

function ctrl_session_run ::
  "ctrl_client_t \<Rightarrow> string \<Rightarrow> string list \<Rightarrow> ctrl_client_t option \<times> string list" where
  "ctrl_session_run c pending arrivals =
     (if pending = [] \<and> arrivals = [] then (Some c, [])
      else
        case ctrl_client_read c (if pending = [] then hd arrivals else pending) of
          None \<Rightarrow> (None, [])
        | Some (c', ls, left) \<Rightarrow>
            (case ctrl_session_run c' left (if pending = [] then tl arrivals else arrivals) of
               (r, ls') \<Rightarrow> (r, ls @ ls')))"
  by pat_completeness auto
termination
proof (relation "measure (\<lambda>(c, pending, arrivals). length pending + sum_list (map length arrivals) + length arrivals)")
  show "wf (measure (\<lambda>(c, pending, arrivals). length pending + sum_list (map length arrivals) + length arrivals))"
    by simp
next
  fix c :: ctrl_client_t and pending :: string and arrivals :: "string list"
    and x2 :: "ctrl_client_t \<times> string list \<times> string" and c' y ls left
  assume ne: "\<not> (pending = [] \<and> arrivals = [])"
    and rd: "ctrl_client_read c (if pending = [] then hd arrivals else pending) = Some x2"
    and x2: "(c', y) = x2" "(ls, left) = y"
  let ?avail = "if pending = [] then hd arrivals else pending"
  let ?space = "int CTRL_BUF_SIZE - int (length (buf c)) - 1"
  from rd x2 have sp: "0 < ?space" and got: "take (nat ?space) ?avail \<noteq> []"
    and left: "left = drop (nat ?space) ?avail"
    by (auto simp: ctrl_client_read_def Let_def split: if_splits prod.splits)
  from got have av: "?avail \<noteq> []" by auto
  from sp av left have lt: "length left < length ?avail" by auto
  show "((c', left, if pending = [] then tl arrivals else arrivals), (c, pending, arrivals))
        \<in> measure (\<lambda>(c, pending, arrivals). length pending + sum_list (map length arrivals) + length arrivals)"
  proof (cases "pending = []")
    case True
    with ne obtain a as where as: "arrivals = a # as" by (cases arrivals) auto
    with True lt show ?thesis by simp
  next
    case False
    with lt show ?thesis by simp
  qed
qed

declare ctrl_session_run.simps [simp del]


text \<open>
  The tokens of a line, stated from its text: the text is what precedes the first NUL,
  carriage return or line feed; it is split at every single space, so that two spaces in a
  row enclose an empty token; and the first 511 pieces are the tokens the handler sees.
\<close>

definition line_text :: "string \<Rightarrow> string" where
  "line_text line = take (strcspn (c_str line) [CR, LF]) (c_str line)"

fun split_sp :: "string \<Rightarrow> string list" where
  "split_sp [] = [[]]"
| "split_sp (c # cs) =
     (if c = CHR '' '' then [] # split_sp cs
      else (c # hd (split_sp cs)) # tl (split_sp cs))"

definition line_tokens :: "string \<Rightarrow> string list" where
  "line_tokens line = take 511 (split_sp (line_text line))"

text \<open>Tokens rejoined with single spaces.\<close>

fun join_sp :: "string list \<Rightarrow> string" where
  "join_sp [] = []"
| "join_sp [t] = t"
| "join_sp (t # u # ts) = t @ '' '' @ join_sp (u # ts)"

text \<open>
  A token without its leading quote character, if it has one; a token closes a quoted
  path when what is left of it ends in a quote character. A path is plain when it is
  not empty and has no quote character.
\<close>

definition strip_lead :: "string \<Rightarrow> string" where
  "strip_lead tok = (if starts_quoted tok then tl tok else tok)"

definition closes :: "string \<Rightarrow> bool" where
  "closes tok \<longleftrightarrow> strip_lead tok \<noteq> [] \<and> is_quote (last (strip_lead tok))"

definition plain_path :: "string \<Rightarrow> bool" where
  "plain_path p \<longleftrightarrow> p \<noteq> [] \<and> (\<forall>c\<in>set p. \<not> is_quote c)"

text \<open>The bytes a client sends for a list of lines: each line followed by a line feed.\<close>

definition wire_lines :: "string list \<Rightarrow> string" where
  "wire_lines ls = concat (map (\<lambda>l. l @ [LF]) ls)"

section \<open>Properties of the tokeniser and the dispatcher\<close>

lemma ctrl_tokenize_cmdargc:
  "ctrl_tokenize linespn acc = (xargv, cmdargc) \<Longrightarrow> cmdargc \<le> length xargv"
proof (induction linespn acc rule: ctrl_tokenize.induct)
  case (1 linespn acc)
  show ?case
  proof (cases "ctrl_strsep linespn '' ''")
    case (Pair t rest)
    show ?thesis
    proof (cases t)
      case None
      with Pair "1.prems" show ?thesis
        by (auto simp: ctrl_tokenize.simps [of linespn acc])
    next
      case (Some tok)
      show ?thesis
      proof (cases "512 \<le> Suc (length acc)")
        case True
        with Pair Some "1.prems" show ?thesis
          by (auto simp: ctrl_tokenize.simps [of linespn acc])
      next
        case False
        with Pair Some "1.prems" have "ctrl_tokenize rest (acc @ [tok]) = (xargv, cmdargc)"
          by (simp add: ctrl_tokenize.simps [of linespn acc])
        with "1.IH" [OF Pair [symmetric] _ False] Some show ?thesis
          by simp
      qed
    qed
  qed
qed

lemma ctrl_parse_line_cmdargc:
  "ctrl_parse_line line = Some (xargv, cmdargc) \<Longrightarrow> cmdargc \<le> length xargv"
  by (auto simp: ctrl_parse_line_def Let_def split: if_splits dest: ctrl_tokenize_cmdargc)

lemma handle_parsed:
  "ctrl_parse_line line = Some (xargv, cmdargc) \<Longrightarrow>
   ctrl_handle_command h line = ctrl_dispatch h xargv cmdargc"
  by (simp add: ctrl_handle_command_def)

text \<open>Which branch of the chain a command name selects.\<close>

lemma dispatch_cdload:
  "strcasecmp_eq (xargv ! 0) ''cdload'' \<Longrightarrow> 3 \<le> cmdargc \<Longrightarrow>
   ctrl_dispatch h xargv cmdargc = cdload_branch (lim h) xargv cmdargc"
  by (simp add: ctrl_dispatch_def strcasecmp_eq_def tolower_c_def)

lemma dispatch_cdeject:
  "strcasecmp_eq (xargv ! 0) ''cdeject'' \<Longrightarrow> 2 \<le> cmdargc \<Longrightarrow>
   ctrl_dispatch h xargv cmdargc
     = eject_branch (CDROM_NUM (lim h)) (\<lambda>i. Cdrom_mount i []) ''cdrom'' xargv"
  by (simp add: ctrl_dispatch_def strcasecmp_eq_def tolower_c_def)

lemma dispatch_fddload:
  "strcasecmp_eq (xargv ! 0) ''fddload'' \<Longrightarrow> 4 \<le> cmdargc \<Longrightarrow>
   ctrl_dispatch h xargv cmdargc
     = load3_branch (PATH_MAX (lim h)) (FDD_NUM (lim h)) Floppy_mount ''fdd'' xargv cmdargc"
  by (simp add: ctrl_dispatch_def strcasecmp_eq_def tolower_c_def)

lemma dispatch_fddeject:
  "strcasecmp_eq (xargv ! 0) ''fddeject'' \<Longrightarrow> 2 \<le> cmdargc \<Longrightarrow>
   ctrl_dispatch h xargv cmdargc = eject_branch (FDD_NUM (lim h)) Floppy_eject ''fdd'' xargv"
  by (simp add: ctrl_dispatch_def strcasecmp_eq_def tolower_c_def)

lemma dispatch_moload:
  "strcasecmp_eq (xargv ! 0) ''moload'' \<Longrightarrow> 4 \<le> cmdargc \<Longrightarrow>
   ctrl_dispatch h xargv cmdargc
     = load3_branch (PATH_MAX (lim h)) (MO_NUM (lim h)) Mo_mount ''mo'' xargv cmdargc"
  by (simp add: ctrl_dispatch_def strcasecmp_eq_def tolower_c_def)

lemma dispatch_moeject:
  "strcasecmp_eq (xargv ! 0) ''moeject'' \<Longrightarrow> 2 \<le> cmdargc \<Longrightarrow>
   ctrl_dispatch h xargv cmdargc = eject_branch (MO_NUM (lim h)) Mo_eject ''mo'' xargv"
  by (simp add: ctrl_dispatch_def strcasecmp_eq_def tolower_c_def)

lemma dispatch_rdiskload:
  "strcasecmp_eq (xargv ! 0) ''rdiskload'' \<Longrightarrow> 4 \<le> cmdargc \<Longrightarrow>
   ctrl_dispatch h xargv cmdargc
     = load3_branch (PATH_MAX (lim h)) (RDISK_NUM (lim h)) Rdisk_mount ''rdisk'' xargv cmdargc"
  by (simp add: ctrl_dispatch_def strcasecmp_eq_def tolower_c_def)

lemma dispatch_rdiskeject:
  "strcasecmp_eq (xargv ! 0) ''rdiskeject'' \<Longrightarrow> 2 \<le> cmdargc \<Longrightarrow>
   ctrl_dispatch h xargv cmdargc = eject_branch (RDISK_NUM (lim h)) Rdisk_eject ''rdisk'' xargv"
  by (simp add: ctrl_dispatch_def strcasecmp_eq_def tolower_c_def)

lemma dispatch_cartload:
  "strcasecmp_eq (xargv ! 0) ''cartload'' \<Longrightarrow> 4 \<le> cmdargc \<Longrightarrow>
   ctrl_dispatch h xargv cmdargc
     = load3_branch (PATH_MAX (lim h)) 2 Cartridge_mount ''cartridge'' xargv cmdargc"
  by (simp add: ctrl_dispatch_def strcasecmp_eq_def tolower_c_def)

lemma dispatch_carteject:
  "strcasecmp_eq (xargv ! 0) ''carteject'' \<Longrightarrow> 2 \<le> cmdargc \<Longrightarrow>
   ctrl_dispatch h xargv cmdargc = eject_branch 2 Cartridge_eject ''cartridge'' xargv"
  by (simp add: ctrl_dispatch_def strcasecmp_eq_def tolower_c_def)

lemma dispatch_screencrc:
  "strcasecmp_eq (xargv ! 0) ''screencrc'' \<Longrightarrow>
   ctrl_dispatch h xargv cmdargc = screencrc_branch h xargv cmdargc"
  by (simp add: ctrl_dispatch_def strcasecmp_eq_def tolower_c_def)

text \<open>The id the parser returns is the converted second token.\<close>

lemma media3_id:
  "ctrl_process_media_commands_3 pmax fn xargv cmdargc = Inr (i, p, wp, err) \<Longrightarrow>
   atoi_u8 (xargv ! 1) = Inr i"
  by (auto simp: ctrl_process_media_commands_3_def split: sum.splits if_splits prod.splits)

lemma eject_branch_invalid:
  "atoi_u8 (xargv ! 1) = Inr id8 \<Longrightarrow> num \<le> unat id8 \<Longrightarrow>
   eject_branch num eject cls xargv = Inr [Send (''ERR invalid drive id'' @ [LF])]"
  by (simp add: eject_branch_def)

lemma load3_branch_invalid:
  assumes "atoi_u8 (xargv ! 1) = Inr id8" and "num \<le> unat id8" and "4 \<le> cmdargc"
    and "cmdargc \<le> length xargv"
  shows "load3_branch pmax num mount cls xargv cmdargc = Inr [Send (''ERR invalid arguments'' @ [LF])]
         \<or> (\<exists>f. load3_branch pmax num mount cls xargv cmdargc = Inl f)"
proof (cases "ctrl_process_media_commands_3 pmax [] xargv cmdargc")
  case (Inl f)
  with assms show ?thesis by (simp add: load3_branch_def arg_def)
next
  case (Inr r)
  obtain i p wp err where r: "r = (i, p, wp, err)" by (cases r) auto
  with Inr assms(1) have "i = id8" by (auto dest: media3_id)
  with Inr r assms show ?thesis by (simp add: load3_branch_def arg_def)
qed


section \<open>Drive ids\<close>

text \<open>
  Claim C1, as the code has it. The id is the second token converted by \<^verbatim>\<open>atoi\<close> and
  cut to eight bits. When that id is not below the unit count of the class,
  \<^verbatim>\<open>cdload\<close> (with at least three tokens) and the five eject commands (with at least two
  tokens) reply exactly \<^verbatim>\<open>ERR invalid drive id\<close> and do nothing else. The four
  three-argument load commands (with at least four tokens) reply exactly
  \<^verbatim>\<open>ERR invalid arguments\<close> instead, unless their path parser has run into undefined
  behaviour before; in neither case is a collaborator called.
\<close>

theorem invalid_drive_id_rejected:
  assumes p: "ctrl_parse_line line = Some (xargv, cmdargc)"
    and a: "atoi_u8 (xargv ! 1) = Inr id8"
  shows
    "(strcasecmp_eq (xargv ! 0) ''cdload'' \<and> 3 \<le> cmdargc \<and> CDROM_NUM (lim h) \<le> unat id8
        \<longrightarrow> ctrl_handle_command h line = Inr [Send (''ERR invalid drive id'' @ [LF])])
   \<and> (strcasecmp_eq (xargv ! 0) ''cdeject'' \<and> 2 \<le> cmdargc \<and> CDROM_NUM (lim h) \<le> unat id8
        \<longrightarrow> ctrl_handle_command h line = Inr [Send (''ERR invalid drive id'' @ [LF])])
   \<and> (strcasecmp_eq (xargv ! 0) ''fddeject'' \<and> 2 \<le> cmdargc \<and> FDD_NUM (lim h) \<le> unat id8
        \<longrightarrow> ctrl_handle_command h line = Inr [Send (''ERR invalid drive id'' @ [LF])])
   \<and> (strcasecmp_eq (xargv ! 0) ''moeject'' \<and> 2 \<le> cmdargc \<and> MO_NUM (lim h) \<le> unat id8
        \<longrightarrow> ctrl_handle_command h line = Inr [Send (''ERR invalid drive id'' @ [LF])])
   \<and> (strcasecmp_eq (xargv ! 0) ''rdiskeject'' \<and> 2 \<le> cmdargc \<and> RDISK_NUM (lim h) \<le> unat id8
        \<longrightarrow> ctrl_handle_command h line = Inr [Send (''ERR invalid drive id'' @ [LF])])
   \<and> (strcasecmp_eq (xargv ! 0) ''carteject'' \<and> 2 \<le> cmdargc \<and> 2 \<le> unat id8
        \<longrightarrow> ctrl_handle_command h line = Inr [Send (''ERR invalid drive id'' @ [LF])])
   \<and> (strcasecmp_eq (xargv ! 0) ''fddload'' \<and> 4 \<le> cmdargc \<and> FDD_NUM (lim h) \<le> unat id8
        \<longrightarrow> ctrl_handle_command h line = Inr [Send (''ERR invalid arguments'' @ [LF])]
            \<or> (\<exists>f. ctrl_handle_command h line = Inl f))
   \<and> (strcasecmp_eq (xargv ! 0) ''moload'' \<and> 4 \<le> cmdargc \<and> MO_NUM (lim h) \<le> unat id8
        \<longrightarrow> ctrl_handle_command h line = Inr [Send (''ERR invalid arguments'' @ [LF])]
            \<or> (\<exists>f. ctrl_handle_command h line = Inl f))
   \<and> (strcasecmp_eq (xargv ! 0) ''rdiskload'' \<and> 4 \<le> cmdargc \<and> RDISK_NUM (lim h) \<le> unat id8
        \<longrightarrow> ctrl_handle_command h line = Inr [Send (''ERR invalid arguments'' @ [LF])]
            \<or> (\<exists>f. ctrl_handle_command h line = Inl f))
   \<and> (strcasecmp_eq (xargv ! 0) ''cartload'' \<and> 4 \<le> cmdargc \<and> 2 \<le> unat id8
        \<longrightarrow> ctrl_handle_command h line = Inr [Send (''ERR invalid arguments'' @ [LF])]
            \<or> (\<exists>f. ctrl_handle_command h line = Inl f))"
proof -
  note len = ctrl_parse_line_cmdargc [OF p]
  note hp = handle_parsed [OF p, of h]
  have cd: "strcasecmp_eq (xargv ! 0) ''cdload'' \<and> 3 \<le> cmdargc \<and> CDROM_NUM (lim h) \<le> unat id8
        \<longrightarrow> ctrl_handle_command h line = Inr [Send (''ERR invalid drive id'' @ [LF])]"
    using a len by (auto simp: hp dispatch_cdload cdload_branch_def arg_def)
  have ej: "strcasecmp_eq (xargv ! 0) ''cdeject'' \<and> 2 \<le> cmdargc \<and> CDROM_NUM (lim h) \<le> unat id8
        \<longrightarrow> ctrl_handle_command h line = Inr [Send (''ERR invalid drive id'' @ [LF])]"
    "strcasecmp_eq (xargv ! 0) ''fddeject'' \<and> 2 \<le> cmdargc \<and> FDD_NUM (lim h) \<le> unat id8
        \<longrightarrow> ctrl_handle_command h line = Inr [Send (''ERR invalid drive id'' @ [LF])]"
    "strcasecmp_eq (xargv ! 0) ''moeject'' \<and> 2 \<le> cmdargc \<and> MO_NUM (lim h) \<le> unat id8
        \<longrightarrow> ctrl_handle_command h line = Inr [Send (''ERR invalid drive id'' @ [LF])]"
    "strcasecmp_eq (xargv ! 0) ''rdiskeject'' \<and> 2 \<le> cmdargc \<and> RDISK_NUM (lim h) \<le> unat id8
        \<longrightarrow> ctrl_handle_command h line = Inr [Send (''ERR invalid drive id'' @ [LF])]"
    "strcasecmp_eq (xargv ! 0) ''carteject'' \<and> 2 \<le> cmdargc \<and> 2 \<le> unat id8
        \<longrightarrow> ctrl_handle_command h line = Inr [Send (''ERR invalid drive id'' @ [LF])]"
    using a
    by (simp_all add: hp dispatch_cdeject dispatch_fddeject dispatch_moeject dispatch_rdiskeject
        dispatch_carteject eject_branch_invalid)
  have ld: "strcasecmp_eq (xargv ! 0) ''fddload'' \<and> 4 \<le> cmdargc \<and> FDD_NUM (lim h) \<le> unat id8
        \<longrightarrow> ctrl_handle_command h line = Inr [Send (''ERR invalid arguments'' @ [LF])]
            \<or> (\<exists>f. ctrl_handle_command h line = Inl f)"
    "strcasecmp_eq (xargv ! 0) ''moload'' \<and> 4 \<le> cmdargc \<and> MO_NUM (lim h) \<le> unat id8
        \<longrightarrow> ctrl_handle_command h line = Inr [Send (''ERR invalid arguments'' @ [LF])]
            \<or> (\<exists>f. ctrl_handle_command h line = Inl f)"
    "strcasecmp_eq (xargv ! 0) ''rdiskload'' \<and> 4 \<le> cmdargc \<and> RDISK_NUM (lim h) \<le> unat id8
        \<longrightarrow> ctrl_handle_command h line = Inr [Send (''ERR invalid arguments'' @ [LF])]
            \<or> (\<exists>f. ctrl_handle_command h line = Inl f)"
    "strcasecmp_eq (xargv ! 0) ''cartload'' \<and> 4 \<le> cmdargc \<and> 2 \<le> unat id8
        \<longrightarrow> ctrl_handle_command h line = Inr [Send (''ERR invalid arguments'' @ [LF])]
            \<or> (\<exists>f. ctrl_handle_command h line = Inl f)"
    using load3_branch_invalid [OF a _ _ len]
    by (simp_all add: hp dispatch_fddload dispatch_moload dispatch_rdiskload dispatch_cartload)
  from cd ej ld show ?thesis by blast
qed

theorem invalid_drive_id_rejected_witness:
  "ctrl_parse_line ''cdeject 9'' = Some ([''cdeject'', ''9''], 2)
   \<and> atoi_u8 ''9'' = Inr 9
   \<and> strcasecmp_eq ''cdeject'' ''cdeject'' \<and> CDROM_NUM (lim sample_host) \<le> unat (9 :: 8 word)
   \<and> ctrl_handle_command sample_host ''cdeject 9'' = Inr [Send (''ERR invalid drive id'' @ [LF])]"
proof -
  have p: "ctrl_parse_line ''cdeject 9'' = Some ([''cdeject'', ''9''], 2)" by code_simp
  have a: "atoi_u8 ([''cdeject'', ''9''] ! 1) = Inr 9" by code_simp
  have c: "strcasecmp_eq ([''cdeject'', ''9''] ! 0) ''cdeject''" by code_simp
  have n: "CDROM_NUM (lim sample_host) \<le> unat (9 :: 8 word)" by code_simp
  from invalid_drive_id_rejected [OF p a, of sample_host] c n
  have "ctrl_handle_command sample_host ''cdeject 9'' = Inr [Send (''ERR invalid drive id'' @ [LF])]"
    by simp
  with p a c n show ?thesis by simp
qed

text \<open>
  Claim C1 as stated fails: \<^verbatim>\<open>fddload 9 a.img 0\<close> names drive 9 of four floppy drives, and
  the reply is \<^verbatim>\<open>ERR invalid arguments\<close>, not \<^verbatim>\<open>ERR invalid drive id\<close>.
\<close>

theorem load_reply_counterexample:
  "atoi ''9'' = Inr 9 \<and> int (FDD_NUM (lim sample_host)) \<le> 9
   \<and> ctrl_handle_command sample_host ''fddload 9 a.img 0'' = Inr [Send (''ERR invalid arguments'' @ [LF])]
   \<and> ctrl_handle_command sample_host ''fddload 9 a.img 0'' \<noteq> Inr [Send (''ERR invalid drive id'' @ [LF])]"
  by code_simp

section \<open>Memory safety of the path parser\<close>

text \<open>
  The \<^verbatim>\<open>strcat\<close> of the quoted branch is not guarded by the length check before it, which
  only sets \<^verbatim>\<open>err\<close>: a quoted third token that does not fit the path buffer is written
  past its end. (With a \<^verbatim>\<open>PATH_MAX\<close> of 4096 no line of the 4096-byte receive buffer is
  that long.)
\<close>

lemma media3_quoted_overflow:
  assumes "2 < cmdargc" and "pmax < length (strip_lead (xargv ! 2)) + 1"
  shows "media3_quoted pmax xargv cmdargc 2 [] False None = Inl BufferOverflow"
  using assms
  by (subst media3_quoted.simps) (simp add: strip_lead_def [symmetric] strcat_fn_def Let_def)

text \<open>
  Claim C9 does not hold of the code. On the line \<^verbatim>\<open>fddload 0 ' 1\<close> the third token is a
  lone quote character: the quoted branch appends the token without its leading quote,
  that is nothing, to the empty \<^verbatim>\<open>fn\<close>, and then reads \<^verbatim>\<open>fn[strlen(fn) - 1]\<close>, the byte
  before the array.
\<close>

theorem lone_quote_reads_before_path_buffer:
  "ctrl_parse_line (''fddload 0 '' @ [CHR 0x27] @ '' 1'') = Some ([''fddload'', ''0'', [CHR 0x27], ''1''], 4)
   \<and> ctrl_process_media_commands_3 (PATH_MAX (lim sample_host)) [] [''fddload'', ''0'', [CHR 0x27], ''1''] 4
       = Inl OutOfBoundsRead
   \<and> ctrl_handle_command sample_host (''fddload 0 '' @ [CHR 0x27] @ '' 1'') = Inl OutOfBoundsRead"
  by code_simp


section \<open>Change detection in the poller\<close>

text \<open>
  Each checking loop leaves the part of the \<^verbatim>\<open>prev\<close> array it has passed equal to the
  status just read, and appends the lines of the units it has passed.
\<close>

lemma led_eq: "(p :: led_status) = led s \<longleftrightarrow> active p = active s \<and> write_active p = write_active s"
  by (cases p) (auto simp: led_def)

lemma check_led_step:
  assumes "i < length prev"
  shows "check_led cls (active s) (write_active s) (map f [0..<i] @ drop i prev, out) i
       = (map f [0..<i] @ led s # drop (Suc i) prev, out @ led_events cls i (prev ! i) s)"
proof -
  have nth: "(map f [0..<i] @ drop i prev) ! i = prev ! i"
    using assms by (simp add: nth_append)
  have upd: "(map f [0..<i] @ drop i prev)[i := x] = map f [0..<i] @ x # drop (Suc i) prev" for x
    using assms by (simp add: list_update_append Cons_nth_drop_Suc [symmetric])
  show ?thesis
  proof (cases "active s \<noteq> active (prev ! i) \<or> write_active s \<noteq> write_active (prev ! i)")
    case True
    then show ?thesis
      by (simp add: check_led_def nth upd led_events_def led_def)
  next
    case False
    then have "prev ! i = led s" by (simp add: led_eq)
    then have d: "drop i prev = led s # drop (Suc i) prev"
      using assms by (simp add: Cons_nth_drop_Suc [symmetric])
    from False have "check_led cls (active s) (write_active s) (map f [0..<i] @ drop i prev, out) i
        = (map f [0..<i] @ drop i prev, out @ led_events cls i (prev ! i) s)"
      by (simp add: check_led_def nth led_events_def)
    then show ?thesis by (simp only: d)
  qed
qed

lemma check_media_step:
  assumes "i < length pe"
  shows "check_media cls (empty s) (map f [0..<i] @ drop i pe, out) i
       = (map f [0..<i] @ empty s # drop (Suc i) pe, out @ media_events cls i (pe ! i) s)"
proof -
  have nth: "(map f [0..<i] @ drop i pe) ! i = pe ! i"
    using assms by (simp add: nth_append)
  have upd: "(map f [0..<i] @ drop i pe)[i := x] = map f [0..<i] @ x # drop (Suc i) pe" for x
    using assms by (simp add: list_update_append Cons_nth_drop_Suc [symmetric])
  show ?thesis
  proof (cases "empty s \<noteq> pe ! i")
    case True
    then show ?thesis
      by (simp add: check_media_def nth upd media_events_def)
  next
    case False
    then have d: "drop i pe = empty s # drop (Suc i) pe"
      using assms by (simp add: Cons_nth_drop_Suc [symmetric])
    from False have "check_media cls (empty s) (map f [0..<i] @ drop i pe, out) i
        = (map f [0..<i] @ drop i pe, out @ media_events cls i (pe ! i) s)"
      by (simp add: check_media_def nth media_events_def)
    then show ?thesis by (simp only: d)
  qed
qed

lemma led_loop:
  "n \<le> length prev \<Longrightarrow>
   foldl (poll_unit_led cls ms) (prev, out) [0..<n]
     = (map (\<lambda>i. led (ms ! i)) [0..<n] @ drop n prev,
        out @ concat (map (\<lambda>i. led_events cls i (prev ! i) (ms ! i)) [0..<n]))"
proof (induction n)
  case 0
  then show ?case by simp
next
  case (Suc n)
  then have "n < length prev" by simp
  from check_led_step [OF this, of cls "ms ! n" "\<lambda>i. led (ms ! i)"] Suc show ?case
    by (simp add: poll_unit_led_def)
qed

lemma media_loop:
  "n \<le> length prev \<Longrightarrow> n \<le> length pe \<Longrightarrow>
   foldl (poll_unit_media cls ms) (prev, pe, out) [0..<n]
     = (map (\<lambda>i. led (ms ! i)) [0..<n] @ drop n prev,
        map (\<lambda>i. empty (ms ! i)) [0..<n] @ drop n pe,
        out @ concat (map (\<lambda>i. led_events cls i (prev ! i) (ms ! i)
                              @ media_events cls i (pe ! i) (ms ! i)) [0..<n]))"
proof (induction n)
  case 0
  then show ?case by simp
next
  case (Suc n)
  then have n: "n < length prev" "n < length pe" by simp_all
  from check_led_step [OF n(1), of cls "ms ! n" "\<lambda>i. led (ms ! i)"]
    check_media_step [OF n(2), of cls "ms ! n" "\<lambda>i. empty (ms ! i)"] Suc
  show ?case
    by (simp add: poll_unit_media_def)
qed

text \<open>
  Claim C8. On a tick with at least one client every unit contributes, in the order of
  the classes and units, exactly one \<^verbatim>\<open>!led\<close> line when its LED flags (\<^verbatim>\<open>active\<close>,
  \<^verbatim>\<open>write_active\<close>) differ from the previous state, and exactly one \<^verbatim>\<open>!media\<close> line
  when its \<^verbatim>\<open>empty\<close> flag differs; a unit whose flags are unchanged contributes nothing.
  After the tick the previous state is the status just read.
\<close>

theorem poll_tick_edges:
  assumes "0 < n" and "poll_state_ok l ps"
  shows "ctrl_led_poll_tick l n ms ps =
    (ctrl_led_poll_init l ms,
     concat (map (\<lambda>i. led_events ''fdd'' i (prev_fdd ps ! i) (fdd ms ! i)
                       @ media_events ''fdd'' i (prev_fdd_empty ps ! i) (fdd ms ! i)) [0..<FDD_NUM l])
     @ concat (map (\<lambda>i. led_events ''cdrom'' i (prev_cdrom ps ! i) (cdrom ms ! i)
                       @ media_events ''cdrom'' i (prev_cdrom_empty ps ! i) (cdrom ms ! i)) [0..<CDROM_NUM l])
     @ concat (map (\<lambda>i. led_events ''hdd'' i (prev_hdd ps ! i) (hdd ms ! i)) [0..<HDD_BUS_USB l])
     @ concat (map (\<lambda>i. led_events ''rdisk'' i (prev_rdisk ps ! i) (rdisk ms ! i)
                       @ media_events ''rdisk'' i (prev_rdisk_empty ps ! i) (rdisk ms ! i)) [0..<RDISK_NUM l])
     @ concat (map (\<lambda>i. led_events ''mo'' i (prev_mo ps ! i) (mo ms ! i)
                       @ media_events ''mo'' i (prev_mo_empty ps ! i) (mo ms ! i)) [0..<MO_NUM l])
     @ concat (map (\<lambda>i. led_events ''net'' i (prev_net ps ! i) (net ms ! i)) [0..<NET_CARD_MAX l]))"
  using assms
  by (simp add: ctrl_led_poll_tick_def poll_state_ok_def media_loop led_loop ctrl_led_poll_init_def)

theorem poll_tick_edges_witness:
  "(0::nat) < 1 \<and> poll_state_ok sample_limits (ctrl_led_poll_init sample_limits sample_status)
   \<and> ctrl_led_poll_tick sample_limits 1 writing_status (ctrl_led_poll_init sample_limits sample_status)
       = (ctrl_led_poll_init sample_limits writing_status, [''!led fdd 0 write'' @ [LF]])
   \<and> ctrl_led_poll_tick sample_limits 1 writing_status (ctrl_led_poll_init sample_limits writing_status)
       = (ctrl_led_poll_init sample_limits writing_status, [])"
proof -
  have pos: "(0::nat) < 1" by simp
  have ok: "poll_state_ok sample_limits (ctrl_led_poll_init sample_limits sample_status)"
    "poll_state_ok sample_limits (ctrl_led_poll_init sample_limits writing_status)"
    by code_simp+
  have t1: "ctrl_led_poll_tick sample_limits 1 writing_status (ctrl_led_poll_init sample_limits sample_status)
       = (ctrl_led_poll_init sample_limits writing_status, [''!led fdd 0 write'' @ [LF]])"
    by (rule trans [OF poll_tick_edges [OF pos ok(1)]]) code_simp
  have t2: "ctrl_led_poll_tick sample_limits 1 writing_status (ctrl_led_poll_init sample_limits writing_status)
       = (ctrl_led_poll_init sample_limits writing_status, [])"
    by (rule trans [OF poll_tick_edges [OF pos ok(2)]]) code_simp
  from pos ok(1) t1 t2 show ?thesis by simp
qed

text \<open>
  Claim C3, as the code has it. On a tick with no client the loop body is skipped by the
  \<^verbatim>\<open>continue\<close>: nothing is broadcast and the previous state stays as it was.
\<close>

theorem no_clients_no_sampling:
  "ctrl_led_poll_tick l 0 ms ps = (ps, [])"
  by (simp add: ctrl_led_poll_tick_def)

text \<open>
  Claim C3 as stated fails: with no client, floppy drive 0 starts writing, and after the
  tick the previous state still shows it idle.
\<close>

theorem no_clients_snapshot_counterexample:
  "ctrl_led_poll_tick sample_limits 0 writing_status (ctrl_led_poll_init sample_limits sample_status)
     = (ctrl_led_poll_init sample_limits sample_status, [])
   \<and> prev_fdd (ctrl_led_poll_init sample_limits sample_status) ! 0 \<noteq> led (fdd writing_status ! 0)
   \<and> ctrl_led_poll_init sample_limits sample_status \<noteq> ctrl_led_poll_init sample_limits writing_status"
  by code_simp


section \<open>The screen checksum is the CRC-32 of the colour bytes\<close>

text \<open>
  The mask \<^verbatim>\<open>-(crc & 1)\<close> is all ones when the low bit is set and zero otherwise, so a
  round of the source is the shift of the specification.
\<close>

lemma crc_round_spec: "crc_round crc = crc32_shift crc"
proof (cases "bit crc 0")
  case True
  then have "crc AND 1 = 1" by (simp add: and_one_eq bit_0 mod_2_eq_odd)
  then show ?thesis using True by (simp add: crc_round_def crc32_shift_def)
next
  case False
  then have "crc AND 1 = 0" by (simp add: and_one_eq bit_0 mod_2_eq_odd)
  then show ?thesis using False by (simp add: crc_round_def crc32_shift_def)
qed

lemma crc_byte_spec: "crc_byte crc b = (crc32_shift ^^ 8) (crc XOR ucast b)"
proof -
  have "crc_round = crc32_shift" by (rule ext) (rule crc_round_spec)
  then show ?thesis by (simp add: crc_byte_def)
qed

lemma foldl_concat_map:
  "foldl f a (concat (map g xs)) = foldl (\<lambda>a x. foldl f a (g x)) a xs"
  by (induction xs arbitrary: a) simp_all

lemma crc_pixel_bytes:
  "crc_pixel row crc x
     = foldl crc_byte crc [row (int x * 4), row (int x * 4 + 1), row (int x * 4 + 2)]"
  by (simp add: crc_pixel_def upt_rec [of 0] upt_rec [of 1] upt_rec [of 2] numeral_3_eq_3)

lemma crc_row_bytes:
  "crc_row fb x0 rw crc y
     = foldl crc_byte crc
         (concat (map (\<lambda>i. [fb y ((x0 + int i) * 4), fb y ((x0 + int i) * 4 + 1),
                             fb y ((x0 + int i) * 4 + 2)]) [0..<nat rw]))"
proof -
  have "crc_pixel (\<lambda>k. fb y (x0 * 4 + k))
      = (\<lambda>c i. foldl crc_byte c [fb y ((x0 + int i) * 4), fb y ((x0 + int i) * 4 + 1),
                                    fb y ((x0 + int i) * 4 + 2)])"
    by (intro ext) (simp add: crc_pixel_bytes algebra_simps)
  then show ?thesis
    by (simp only: crc_row_def foldl_concat_map)
qed

lemma screencrc_region_bytes:
  "screencrc_region fb y0 x0 rw rh = foldl crc_byte 0xFFFFFFFF (region_bgr fb y0 x0 rw rh) XOR 0xFFFFFFFF"
proof -
  have "crc_row fb x0 rw
      = (\<lambda>c y. foldl crc_byte c
           (concat (map (\<lambda>i. [fb y ((x0 + int i) * 4), fb y ((x0 + int i) * 4 + 1),
                               fb y ((x0 + int i) * 4 + 2)]) [0..<nat rw])))"
    by (intro ext) (rule crc_row_bytes)
  then show ?thesis
    by (simp only: screencrc_region_def region_bgr_def foldl_concat_map foldl_map)
qed

lemma screencrc_region_is_crc32:
  "screencrc_region fb y0 x0 rw rh = crc32_spec (region_bgr fb y0 x0 rw rh)"
proof -
  have "crc_byte = (\<lambda>crc b. (crc32_shift ^^ 8) (crc XOR ucast b))"
    by (intro ext) (rule crc_byte_spec)
  then show ?thesis by (simp add: screencrc_region_bytes crc32_spec_def)
qed

lemma region_bgr_alpha:
  assumes "\<forall>y k. k mod 4 \<noteq> 3 \<longrightarrow> fb2 y k = fb y k"
  shows "region_bgr fb2 y0 x0 rw rh = region_bgr fb y0 x0 rw rh"
proof -
  have "fb2 y (p * 4) = fb y (p * 4)" "fb2 y (p * 4 + 1) = fb y (p * 4 + 1)"
    "fb2 y (p * 4 + 2) = fb y (p * 4 + 2)" for y p
    using assms by simp_all
  then show ?thesis by (simp only: region_bgr_def)
qed


lemma crc32_shift8:
  "(crc32_shift ^^ 8) c = crc32_shift (crc32_shift (crc32_shift (crc32_shift
     (crc32_shift (crc32_shift (crc32_shift (crc32_shift c)))))))"
  by (simp add: eval_nat_numeral)

text \<open>The check value of CRC-32: the checksum of the ASCII digits 1 to 9.\<close>

lemma crc32_spec_check:
  "crc32_spec [0x31, 0x32, 0x33, 0x34, 0x35, 0x36, 0x37, 0x38, 0x39] = 0xCBF43926"
  by (simp add: crc32_spec_def crc32_shift8 crc32_shift_def bit_0)

lemma screencrc_branch_reply:
  assumes "resolve_monitor h xargv cmdargc = Inr (Inr ((bx, by, bw, bh), fb))"
    and "screencrc_args xargv cmdargc bw bh = Inr r"
    and "screencrc_clamp bw bh r = Inr (Some (rx, ry, rw, rh))"
  shows "screencrc_branch h xargv cmdargc
    = Inr [Send (''OK '' @ hex8 (crc32_spec (region_bgr fb (by + ry) (bx + rx) rw rh))
                 @ '' '' @ dec_int bw @ '' '' @ dec_int bh @ [LF])]"
  using assms by (simp add: screencrc_branch_def screencrc_region_is_crc32)

text \<open>
  Claim C7. When \<^verbatim>\<open>screencrc\<close> gets past its checks with a clamped region that is not
  empty, the checksum of its reply is the CRC-32 of the specification over the blue,
  green and red bytes of the region's pixels, row by row. A host whose frame buffer
  differs from this one in alpha bytes only (the bytes at offsets 3 modulo 4) gets the
  same reply.
\<close>

theorem screencrc_is_crc32_of_bgr:
  assumes p: "ctrl_parse_line line = Some (xargv, cmdargc)"
    and c: "strcasecmp_eq (xargv ! 0) ''screencrc''"
    and m: "resolve_monitor h xargv cmdargc = Inr (Inr ((bx, by, bw, bh), fb))"
    and a: "screencrc_args xargv cmdargc bw bh = Inr r"
    and r: "screencrc_clamp bw bh r = Inr (Some (rx, ry, rw, rh))"
  shows "ctrl_handle_command h line
      = Inr [Send (''OK '' @ hex8 (crc32_spec (region_bgr fb (by + ry) (bx + rx) rw rh))
                   @ '' '' @ dec_int bw @ '' '' @ dec_int bh @ [LF])]
    \<and> (\<forall>h2 fb2. resolve_monitor h2 xargv cmdargc = Inr (Inr ((bx, by, bw, bh), fb2))
          \<and> (\<forall>y k. k mod 4 \<noteq> 3 \<longrightarrow> fb2 y k = fb y k)
          \<longrightarrow> ctrl_handle_command h2 line = ctrl_handle_command h line)"
proof -
  have "ctrl_handle_command h2 line = ctrl_handle_command h line"
    if m2: "resolve_monitor h2 xargv cmdargc = Inr (Inr ((bx, by, bw, bh), fb2))"
      and al: "\<forall>y k. k mod 4 \<noteq> 3 \<longrightarrow> fb2 y k = fb y k" for h2 fb2
    by (simp add: handle_parsed [OF p] dispatch_screencrc [OF c]
        screencrc_branch_reply [OF m a r] screencrc_branch_reply [OF m2 a r]
        region_bgr_alpha [OF al])
  then show ?thesis
    by (simp add: handle_parsed [OF p] dispatch_screencrc [OF c] screencrc_branch_reply [OF m a r])
qed

theorem screencrc_is_crc32_of_bgr_witness:
  "ctrl_parse_line ''screencrc 0 1 1 2 1'' = Some ([''screencrc'', ''0'', ''1'', ''1'', ''2'', ''1''], 6)
   \<and> resolve_monitor sample_host [''screencrc'', ''0'', ''1'', ''1'', ''2'', ''1''] 6
       = Inr (Inr ((0, 0, 4, 3), sample_fb))
   \<and> screencrc_clamp 4 3 (1, 1, 2, 1) = Inr (Some (1, 1, 2, 1))
   \<and> region_bgr sample_fb 1 1 2 1 = [1, 2, 3, 1, 2, 3]
   \<and> ctrl_handle_command sample_host ''screencrc 0 1 1 2 1'' = Inr [Send (''OK B816D787 4 3'' @ [LF])]"
proof -
  let ?xargv = "[''screencrc'', ''0'', ''1'', ''1'', ''2'', ''1'']"
  have p: "ctrl_parse_line ''screencrc 0 1 1 2 1'' = Some (?xargv, 6)" by code_simp
  have c: "strcasecmp_eq (?xargv ! 0) ''screencrc''" by code_simp
  have at: "atoi ''0'' = Inr 0" by code_simp
  have m: "resolve_monitor sample_host ?xargv 6 = Inr (Inr ((0, 0, 4, 3), sample_fb))"
    by (simp add: resolve_monitor_def at sample_host_def sample_limits_def)
  have a: "screencrc_args ?xargv 6 4 3 = Inr (1, 1, 2, 1)" by code_simp
  have r: "screencrc_clamp 4 3 (1, 1, 2, 1) = Inr (Some (1, 1, 2, 1))" by code_simp
  have bytes: "region_bgr sample_fb 1 1 2 1 = [1, 2, 3, 1, 2, 3]"
    by (simp add: region_bgr_def sample_fb_def upt_rec [of 0] upt_rec [of 1] numeral_2_eq_2)
  have crc: "hex8 (crc32_spec [1, 2, 3, 1, 2, 3]) = ''B816D787''"
    by (simp add: crc32_spec_def crc32_shift8 crc32_shift_def bit_0 hex8_def)
  have d: "dec_int 4 = ''4''" "dec_int 3 = ''3''" by code_simp+
  from screencrc_is_crc32_of_bgr [OF p c m a r]
  have "ctrl_handle_command sample_host ''screencrc 0 1 1 2 1'' = Inr [Send (''OK B816D787 4 3'' @ [LF])]"
    by (simp add: bytes crc d)
  with p m r bytes show ?thesis by simp
qed


section \<open>The registry of clients\<close>

text \<open>
  Accepting adds a client only below the limit, and the loop over the clients only
  removes clients, so no pass of the server loop takes the registry over the limit.
\<close>

lemma ctrl_accept_bounded:
  "length cs \<le> CTRL_MAX_CLIENTS \<Longrightarrow> length (fst (ctrl_accept client_fd cs)) \<le> CTRL_MAX_CLIENTS"
  by (simp add: ctrl_accept_def)

lemma ctrl_remove_client_length:
  "length (fst (ctrl_remove_client idx cs)) \<le> length cs"
  by (auto simp: ctrl_remove_client_def)

lemma ctrl_serve_clients_length:
  "length (fst (ctrl_serve_clients readfds i cs)) \<le> length cs"
proof (induction readfds i cs rule: ctrl_serve_clients.induct)
  case (1 readfds i cs)
  show ?case
  proof (cases "i < length cs")
    case False
    then show ?thesis by (simp add: ctrl_serve_clients.simps [of readfds i cs])
  next
    case True
    show ?thesis
    proof (cases "if fd (cs ! i) < 0 then None else readfds (fd (cs ! i))")
      case None
      with True "1.IH"(1) show ?thesis
        by (simp add: ctrl_serve_clients.simps [of readfds i cs])
    next
      case (Some avail)
      show ?thesis
      proof (cases "ctrl_client_read (cs ! i) avail")
        case None
        obtain cs' io1 where rm: "ctrl_remove_client (int i) cs = (cs', io1)"
          by (cases "ctrl_remove_client (int i) cs") auto
        from "1.IH"(2) [OF True Some None rm [symmetric]]
        have "length (fst (ctrl_serve_clients readfds i cs')) \<le> length cs'" .
        moreover from rm ctrl_remove_client_length [of "int i" cs] have "length cs' \<le> length cs"
          by simp
        ultimately show ?thesis
          using True Some None rm
          by (auto simp: ctrl_serve_clients.simps [of readfds i cs] split: prod.splits)
      next
        case (Some r)
        obtain c' ls left where r: "r = (c', ls, left)" by (cases r) auto
        from "1.IH"(3) [OF True \<open>(if fd (cs ! i) < 0 then None else readfds (fd (cs ! i))) = Some avail\<close> Some r [symmetric] refl]
        have "length (fst (ctrl_serve_clients readfds (Suc i) (cs[i := c']))) \<le> length cs"
          by simp
        then show ?thesis
          using True \<open>(if fd (cs ! i) < 0 then None else readfds (fd (cs ! i))) = Some avail\<close> Some r
          by (auto simp: ctrl_serve_clients.simps [of readfds i cs] split: prod.splits)
      qed
    qed
  qed
qed

lemma ctrl_server_pass_bounded:
  assumes b: "length cs \<le> CTRL_MAX_CLIENTS"
  shows "length (fst (ctrl_server_pass cs w)) \<le> CTRL_MAX_CLIENTS"
proof (cases w)
  case (Select_ready listening readfds)
  define a where "a = (case listening of None \<Rightarrow> (cs, []) | Some client_fd \<Rightarrow> ctrl_accept client_fd cs)"
  have "length (fst a) \<le> CTRL_MAX_CLIENTS"
    using b ctrl_accept_bounded [OF b] by (cases listening) (simp_all add: a_def)
  with ctrl_serve_clients_length [of readfds 0 "fst a"]
  have "length (fst (ctrl_serve_clients readfds 0 (fst a))) \<le> CTRL_MAX_CLIENTS" by simp
  with Select_ready show ?thesis
    by (auto simp: a_def [symmetric] split: prod.splits)
next
  case (Select_failed x)
  with b show ?thesis by simp
next
  case Select_timeout
  with b show ?thesis by simp
qed

lemma ctrl_server_run_bounded:
  "length cs \<le> CTRL_MAX_CLIENTS \<Longrightarrow> length (ctrl_server_run cs ws) \<le> CTRL_MAX_CLIENTS"
proof (induction ws arbitrary: cs)
  case Nil
  then show ?case by simp
next
  case (Cons w ws)
  from ctrl_server_pass_bounded [OF Cons.prems, of w] Cons.IH show ?case
    by (auto split: prod.splits)
qed

text \<open>
  Claim C6. Starting from the empty registry, the number of registered clients never
  exceeds \<^verbatim>\<open>CTRL_MAX_CLIENTS\<close> (8), whatever the wake-ups are, and no pass of the server
  loop takes a registry within the limit over it. A connection accepted while 8 clients
  are registered is sent \<^verbatim>\<open>ERR too many clients\<close> and closed at once; it is not added and
  the registry is left as it was.
\<close>

theorem registry_never_exceeds_max:
  "length (ctrl_server_run [] ws) \<le> CTRL_MAX_CLIENTS
   \<and> (length cs \<le> CTRL_MAX_CLIENTS \<longrightarrow> length (fst (ctrl_server_pass cs w)) \<le> CTRL_MAX_CLIENTS)
   \<and> (length cs = CTRL_MAX_CLIENTS \<and> 0 \<le> client_fd \<longrightarrow>
        ctrl_accept client_fd cs
          = (cs, [Write client_fd (''ERR too many clients'' @ [LF]), Close client_fd]))"
  using ctrl_server_run_bounded [of "[]" ws] ctrl_server_pass_bounded [of cs w]
  by (simp add: ctrl_accept_def)

theorem registry_never_exceeds_max_witness:
  "length (replicate 8 \<lparr>fd = 5, buf = ''st''\<rparr>) = CTRL_MAX_CLIENTS \<and> (0::int) \<le> 9
   \<and> ctrl_accept 9 (replicate 8 \<lparr>fd = 5, buf = ''st''\<rparr>)
       = (replicate 8 \<lparr>fd = 5, buf = ''st''\<rparr>, [Write 9 (''ERR too many clients'' @ [LF]), Close 9])
   \<and> length (fst (ctrl_server_pass (replicate 8 \<lparr>fd = 5, buf = ''st''\<rparr>)
                    (Select_ready (Some 9) (\<lambda>d. None)))) \<le> CTRL_MAX_CLIENTS"
proof -
  have l: "length (replicate 8 \<lparr>fd = 5, buf = ''st''\<rparr>) = CTRL_MAX_CLIENTS"
    by (simp add: CTRL_MAX_CLIENTS_def)
  then have le: "length (replicate 8 \<lparr>fd = 5, buf = ''st''\<rparr>) \<le> CTRL_MAX_CLIENTS"
    by simp
  have f: "(0::int) \<le> 9" by simp
  note t = registry_never_exceeds_max [of "[]" "replicate 8 \<lparr>fd = 5, buf = ''st''\<rparr>"
      "Select_ready (Some 9) (\<lambda>d. None)" 9]
  from t l f have a: "ctrl_accept 9 (replicate 8 \<lparr>fd = 5, buf = ''st''\<rparr>)
       = (replicate 8 \<lparr>fd = 5, buf = ''st''\<rparr>, [Write 9 (''ERR too many clients'' @ [LF]), Close 9])"
    by blast
  from t le have b: "length (fst (ctrl_server_pass (replicate 8 \<lparr>fd = 5, buf = ''st''\<rparr>)
                    (Select_ready (Some 9) (\<lambda>d. None)))) \<le> CTRL_MAX_CLIENTS"
    by blast
  from l f a b show ?thesis by blast
qed


section \<open>The receive buffer\<close>

text \<open>
  The line loop splits the buffered bytes into the lines it hands on, each of which was
  followed by a line feed, and the bytes it keeps.
\<close>

lemma strcspn_le: "strcspn s reject \<le> length s"
  by (induction s) simp_all

lemma strcspn_take_notin: "c \<in> set (take (strcspn s reject) s) \<Longrightarrow> c \<notin> set reject"
  by (induction s) (auto split: if_splits)

lemma strcspn_nth_in: "strcspn s reject < length s \<Longrightarrow> s ! strcspn s reject \<in> set reject"
  by (induction s) auto

lemma c_str_take: "n \<le> length (c_str b) \<Longrightarrow> take n (c_str b) = take n b"
proof -
  assume n: "n \<le> length (c_str b)"
  have "c_str b = take (length (c_str b)) b"
    unfolding c_str_def by (rule takeWhile_eq_take)
  then have "take n (c_str b) = take n (take (length (c_str b)) b)" by simp
  with n show ?thesis by (simp add: min_def)
qed

lemma c_str_nth: "n < length (c_str b) \<Longrightarrow> c_str b ! n = b ! n"
  unfolding c_str_def by (rule takeWhile_nth)

lemma c_str_length: "length (c_str b) \<le> length b"
  unfolding c_str_def by (rule length_takeWhile_le)

lemma wire_lines_Cons [simp]: "wire_lines (l # ls) = l @ LF # wire_lines ls"
  by (simp add: wire_lines_def)

lemma wire_lines_Nil [simp]: "wire_lines [] = []"
  by (simp add: wire_lines_def)

lemma wire_lines_append [simp]: "wire_lines (xs @ ys) = wire_lines xs @ wire_lines ys"
  by (simp add: wire_lines_def)

lemma wire_lines_length: "l \<in> set ls \<Longrightarrow> length l < length (wire_lines ls)"
  by (induction ls) auto

lemma process_lines_wire:
  "ctrl_process_lines b = (ls, r) \<Longrightarrow> b = wire_lines ls @ r \<and> (\<forall>l\<in>set ls. LF \<notin> set l)"
proof (induction b arbitrary: ls r rule: ctrl_process_lines.induct)
  case (1 start)
  let ?n = "strcspn (c_str start) [LF]"
  show ?case
  proof (cases "?n < length (c_str start)")
    case False
    with "1.prems" show ?thesis
      by (simp add: ctrl_process_lines.simps [of start])
  next
    case True
    obtain ls' r' where rec: "ctrl_process_lines (drop (Suc ?n) start) = (ls', r')"
      by (cases "ctrl_process_lines (drop (Suc ?n) start)") auto
    with True "1.prems" have ls: "ls = take ?n start # ls'" and r: "r = r'"
      by (simp_all add: ctrl_process_lines.simps [of start])
    from "1.IH" [OF refl True rec]
    have ih: "drop (Suc ?n) start = wire_lines ls' @ r'" "\<forall>l\<in>set ls'. LF \<notin> set l" by simp_all
    from True c_str_length [of start] have n: "?n < length start" by simp
    from strcspn_nth_in [OF True] have "c_str start ! ?n = LF" by simp
    with c_str_nth [OF True] have lf: "start ! ?n = LF" by simp
    have tk: "take ?n start = take ?n (c_str start)"
      using True by (simp add: c_str_take)
    have nolf: "LF \<notin> set (take ?n start)"
      using strcspn_take_notin [of LF "c_str start" "[LF]"] by (auto simp: tk)
    from n have "start = take ?n start @ start ! ?n # drop (Suc ?n) start"
      by (simp add: id_take_nth_drop [symmetric])
    with lf ih(1) have "start = take ?n start @ LF # wire_lines ls' @ r'" by simp
    with ls r ih(2) nolf show ?thesis by simp
  qed
qed

lemma client_read_Some:
  assumes "ctrl_client_read c avail = Some (c', ls, left)"
  shows "\<exists>got. avail = got @ left \<and> buf c @ got = wire_lines ls @ buf c'
     \<and> length (buf c @ got) < CTRL_BUF_SIZE \<and> (\<forall>l\<in>set ls. LF \<notin> set l)"
proof -
  let ?space = "int CTRL_BUF_SIZE - int (length (buf c)) - 1"
  let ?got = "take (nat ?space) avail"
  from assms have sp: "0 < ?space"
    and pl: "ctrl_process_lines (buf c @ ?got) = (ls, buf c')"
    and left: "left = drop (nat ?space) avail"
    by (auto simp: ctrl_client_read_def Let_def split: if_splits prod.splits)
  from sp have "length (buf c @ ?got) < CTRL_BUF_SIZE" by auto
  moreover from left have "avail = ?got @ left" by simp
  moreover note process_lines_wire [OF pl]
  ultimately show ?thesis by blast
qed

lemma client_read_bound:
  "ctrl_client_read c avail = Some (c', ls, left) \<Longrightarrow> length (buf c') < CTRL_BUF_SIZE"
proof -
  assume "ctrl_client_read c avail = Some (c', ls, left)"
  from client_read_Some [OF this] obtain got where
    g: "buf c @ got = wire_lines ls @ buf c'" and l: "length (buf c @ got) < CTRL_BUF_SIZE"
    by blast
  from g have "length (buf c') \<le> length (buf c @ got)" by (metis length_append le_add2)
  with l show ?thesis by simp
qed

lemma session_run_stream:
  assumes "ctrl_session_run c pending arrivals = (r, ls)" and "length (buf c) < CTRL_BUF_SIZE"
  shows "\<exists>b rest. buf c @ pending @ concat arrivals = wire_lines ls @ b @ rest
      \<and> length b < CTRL_BUF_SIZE
      \<and> (\<forall>l\<in>set ls. LF \<notin> set l \<and> Suc (length l) < CTRL_BUF_SIZE)
      \<and> (\<forall>c'. r = Some c' \<longrightarrow> b = buf c' \<and> rest = [])"
  using assms
proof (induction c pending arrivals arbitrary: r ls rule: ctrl_session_run.induct)
  case (1 c pending arrivals)
  show ?case
  proof (cases "pending = [] \<and> arrivals = []")
    case True
    with "1.prems"(1) have "r = Some c \<and> ls = []"
      by (subst (asm) ctrl_session_run.simps) auto
    then have "r = Some c" "ls = []" by simp_all
    with True "1.prems"(2) show ?thesis by simp
  next
    case False
    let ?avail = "if pending = [] then hd arrivals else pending"
    let ?arr = "if pending = [] then tl arrivals else arrivals"
    from False have stream: "pending @ concat arrivals = ?avail @ concat ?arr"
      by (cases arrivals) auto
    show ?thesis
    proof (cases "ctrl_client_read c ?avail")
      case None
      with False "1.prems"(1) have "r = None \<and> ls = []"
        by (subst (asm) ctrl_session_run.simps) auto
      then have "r = None" "ls = []" by simp_all
      with "1.prems"(2) show ?thesis
        by (intro exI [of _ "buf c"] exI [of _ "pending @ concat arrivals"]) simp
    next
      case (Some x)
      obtain c' ls1 left where x: "x = (c', ls1, left)" by (cases x) auto
      obtain r2 ls2 where rec: "ctrl_session_run c' left ?arr = (r2, ls2)"
        by (cases "ctrl_session_run c' left ?arr") auto
      from False Some x rec "1.prems"(1) have "r = r2 \<and> ls = ls1 @ ls2"
        by (subst (asm) ctrl_session_run.simps) auto
      then have res: "r = r2" "ls = ls1 @ ls2" by simp_all
      from Some x have rd: "ctrl_client_read c ?avail = Some (c', ls1, left)" by simp
      from client_read_Some [OF rd] obtain got where
        got: "?avail = got @ left" "buf c @ got = wire_lines ls1 @ buf c'"
          "length (buf c @ got) < CTRL_BUF_SIZE" "\<forall>l\<in>set ls1. LF \<notin> set l"
        by blast
      from "1.IH" [OF False Some x [symmetric] refl rec client_read_bound [OF rd]]
      obtain b rest where ih: "buf c' @ left @ concat ?arr = wire_lines ls2 @ b @ rest"
        "length b < CTRL_BUF_SIZE"
        "\<forall>l\<in>set ls2. LF \<notin> set l \<and> Suc (length l) < CTRL_BUF_SIZE"
        "\<forall>c''. r2 = Some c'' \<longrightarrow> b = buf c'' \<and> rest = []"
        by blast
      have short1: "Suc (length l) < CTRL_BUF_SIZE" if "l \<in> set ls1" for l
      proof -
        from wire_lines_length [OF that] have "length l < length (wire_lines ls1)" .
        also have "\<dots> \<le> length (buf c @ got)" using got(2) by (metis length_append le_add1)
        finally show ?thesis using got(3) by simp
      qed
      have "buf c @ pending @ concat arrivals = (buf c @ got) @ left @ concat ?arr"
        using stream got(1) by simp
      also have "\<dots> = wire_lines ls1 @ (buf c' @ left @ concat ?arr)"
        using got(2) by simp
      also have "\<dots> = wire_lines (ls1 @ ls2) @ b @ rest"
        using ih(1) by simp
      finally have "buf c @ pending @ concat arrivals = wire_lines ls @ b @ rest"
        using res by simp
      moreover have "\<forall>l\<in>set ls. LF \<notin> set l \<and> Suc (length l) < CTRL_BUF_SIZE"
        using res got(4) ih(3) short1 by auto
      ultimately show ?thesis using ih(2,4) res by blast
    qed
  qed
qed


lemma wire_lines_within_pre:
  assumes "wire_lines ls @ x = pre @ long @ rest"
    and "\<forall>l\<in>set ls. LF \<notin> set l \<and> length l < length long"
    and "pre = [] \<or> last pre = LF" and "LF \<notin> set long"
  shows "\<exists>tail. pre = wire_lines ls @ tail"
  using assms
proof (induction ls arbitrary: pre)
  case Nil
  then show ?case by simp
next
  case (Cons l ls)
  from Cons.prems(1) have eq: "l @ LF # (wire_lines ls @ x) = pre @ long @ rest" by simp
  from Cons.prems(2) have l: "LF \<notin> set l" "length l < length long" by simp_all
  have longer: "length l < length pre"
  proof (rule ccontr)
    assume "\<not> length l < length pre"
    then have le: "length pre \<le> length l" by simp
    show False
    proof (cases "pre = []")
      case True
      with eq have "(l @ LF # (wire_lines ls @ x)) ! length l = (long @ rest) ! length l" by simp
      with l(2) have "LF = long ! length l" by (simp add: nth_append)
      with l(2) Cons.prems(4) show False by (metis nth_mem)
    next
      case False
      with Cons.prems(3) have "last pre = LF" by simp
      with False have "LF \<in> set pre" by (metis last_in_set)
      moreover from eq have "take (length pre) (l @ LF # (wire_lines ls @ x)) = pre" by simp
      with le have "pre = take (length pre) l" by simp
      then have "set pre \<subseteq> set l" by (metis set_take_subset)
      ultimately show False using l(1) by auto
    qed
  qed
  define pre' where "pre' = drop (Suc (length l)) pre"
  from eq have "take (Suc (length l)) (l @ LF # (wire_lines ls @ x)) = take (Suc (length l)) (pre @ long @ rest)"
    by simp
  with longer have "l @ [LF] = take (Suc (length l)) pre" by simp
  then have pre: "pre = l @ LF # pre'"
    unfolding pre'_def by (metis append_take_drop_id append.assoc append_Cons append_Nil)
  with eq have eq': "wire_lines ls @ x = pre' @ long @ rest" by simp
  from pre Cons.prems(3) have "pre' = [] \<or> last pre' = LF" by (auto split: if_splits)
  from Cons.IH [OF eq' _ this Cons.prems(4)] Cons.prems(2)
  obtain tail where "pre' = wire_lines ls @ tail" by auto
  with pre show ?case by simp
qed

lemma serve_clients_bufs:
  "\<forall>c\<in>set cs. length (buf c) < CTRL_BUF_SIZE \<Longrightarrow>
   \<forall>c\<in>set (fst (ctrl_serve_clients readfds i cs)). length (buf c) < CTRL_BUF_SIZE"
proof (induction readfds i cs rule: ctrl_serve_clients.induct)
  case (1 readfds i cs)
  show ?case
  proof (cases "i < length cs")
    case False
    with "1.prems" show ?thesis by (simp add: ctrl_serve_clients.simps [of readfds i cs])
  next
    case True
    show ?thesis
    proof (cases "if fd (cs ! i) < 0 then None else readfds (fd (cs ! i))")
      case None
      with True "1.IH"(1) "1.prems" show ?thesis
        by (simp add: ctrl_serve_clients.simps [of readfds i cs])
    next
      case sel: (Some avail)
      show ?thesis
      proof (cases "ctrl_client_read (cs ! i) avail")
        case None
        obtain cs' io1 where rm: "ctrl_remove_client (int i) cs = (cs', io1)"
          by (cases "ctrl_remove_client (int i) cs") auto
        then have "set cs' \<subseteq> set cs"
          by (auto simp: ctrl_remove_client_def split: if_splits dest: in_set_takeD in_set_dropD)
        with "1.prems" have "\<forall>c\<in>set cs'. length (buf c) < CTRL_BUF_SIZE" by auto
        from "1.IH"(2) [OF True sel None rm [symmetric] this]
        show ?thesis
          using True sel None rm
          by (auto simp: ctrl_serve_clients.simps [of readfds i cs] split: prod.splits)
      next
        case (Some r)
        obtain c' ls left where r: "r = (c', ls, left)" by (cases r) auto
        from Some r have "length (buf c') < CTRL_BUF_SIZE" by (auto dest: client_read_bound)
        with "1.prems" have "\<forall>c\<in>set (cs[i := c']). length (buf c) < CTRL_BUF_SIZE"
          by (auto dest: set_update_subset_insert [THEN subsetD])
        from "1.IH"(3) [OF True sel Some r [symmetric] refl this]
        show ?thesis
          using True sel Some r
          by (auto simp: ctrl_serve_clients.simps [of readfds i cs] split: prod.splits)
      qed
    qed
  qed
qed

lemma server_pass_bufs:
  assumes "\<forall>c\<in>set cs. length (buf c) < CTRL_BUF_SIZE"
  shows "\<forall>c\<in>set (fst (ctrl_server_pass cs w)). length (buf c) < CTRL_BUF_SIZE"
proof (cases w)
  case (Select_ready listening readfds)
  define a where "a = (case listening of None \<Rightarrow> (cs, []) | Some client_fd \<Rightarrow> ctrl_accept client_fd cs)"
  have "\<forall>c\<in>set (fst a). length (buf c) < CTRL_BUF_SIZE"
    using assms by (cases listening) (auto simp: a_def ctrl_accept_def CTRL_BUF_SIZE_def)
  from serve_clients_bufs [OF this, of readfds 0] Select_ready show ?thesis
    by (auto simp: a_def [symmetric] split: prod.splits)
next
  case (Select_failed x)
  with assms show ?thesis by simp
next
  case Select_timeout
  with assms show ?thesis by simp
qed

lemma server_run_bufs:
  "\<forall>c\<in>set cs. length (buf c) < CTRL_BUF_SIZE \<Longrightarrow>
   \<forall>c\<in>set (ctrl_server_run cs ws). length (buf c) < CTRL_BUF_SIZE"
proof (induction ws arbitrary: cs)
  case Nil
  then show ?case by simp
next
  case (Cons w ws)
  obtain cs' out go_on where p: "ctrl_server_pass cs w = (cs', out, go_on)"
    by (cases "ctrl_server_pass cs w") auto
  with server_pass_bufs [OF Cons.prems, of w]
  have b: "\<forall>c\<in>set cs'. length (buf c) < CTRL_BUF_SIZE" by simp
  from Cons.IH [OF b] b p show ?case by simp
qed

text \<open>
  Claim C5. Every client in the registry has fewer than \<^verbatim>\<open>CTRL_BUF_SIZE\<close> bytes buffered,
  whatever the wake-ups are, and so has every client a read leaves in place. When the bytes
  a client sends contain, after complete lines \<open>pre\<close>, a stretch \<open>long\<close> of at least
  \<^verbatim>\<open>CTRL_BUF_SIZE - 1\<close> bytes without a line feed and then at least one more byte, the
  client is removed, and the lines handed to \<^verbatim>\<open>ctrl_handle_command\<close> before that are
  complete lines of \<open>pre\<close>, in order: no part of the long line is ever handed on.
\<close>

theorem session_buffer_bounded:
  "(\<forall>c\<in>set (ctrl_server_run [] ws). length (buf c) < CTRL_BUF_SIZE)
   \<and> (ctrl_client_read c avail = Some (c', ls', left) \<longrightarrow> length (buf c') < CTRL_BUF_SIZE)
   \<and> (ctrl_session_run \<lparr>fd = d, buf = []\<rparr> [] arrivals = (r, ls)
        \<and> concat arrivals = pre @ long @ rest
        \<and> (pre = [] \<or> last pre = LF) \<and> LF \<notin> set long
        \<and> CTRL_BUF_SIZE - 1 \<le> length long \<and> rest \<noteq> []
      \<longrightarrow> r = None \<and> (\<exists>tail. pre = wire_lines ls @ tail) \<and> (\<forall>l\<in>set ls. LF \<notin> set l))"
proof -
  have a: "\<forall>c\<in>set (ctrl_server_run [] ws). length (buf c) < CTRL_BUF_SIZE"
    by (rule server_run_bufs) simp
  have b: "ctrl_client_read c avail = Some (c', ls', left) \<longrightarrow> length (buf c') < CTRL_BUF_SIZE"
    by (auto dest: client_read_bound)
  have c: "r = None \<and> (\<exists>tail. pre = wire_lines ls @ tail) \<and> (\<forall>l\<in>set ls. LF \<notin> set l)"
    if run: "ctrl_session_run \<lparr>fd = d, buf = []\<rparr> [] arrivals = (r, ls)"
      and stream: "concat arrivals = pre @ long @ rest"
      and pre: "pre = [] \<or> last pre = LF" and long: "LF \<notin> set long"
      and len: "CTRL_BUF_SIZE - 1 \<le> length long" and rest: "rest \<noteq> []"
  proof -
    from session_run_stream [OF run] obtain b rest' where
      s: "concat arrivals = wire_lines ls @ b @ rest'" and bl: "length b < CTRL_BUF_SIZE"
      and ll: "\<forall>l\<in>set ls. LF \<notin> set l \<and> Suc (length l) < CTRL_BUF_SIZE"
      and fin: "\<forall>c'. r = Some c' \<longrightarrow> b = buf c' \<and> rest' = []"
      by (auto simp: CTRL_BUF_SIZE_def)
    from ll len have short: "\<forall>l\<in>set ls. LF \<notin> set l \<and> length l < length long" by auto
    from s stream have "wire_lines ls @ (b @ rest') = pre @ long @ rest" by simp
    from wire_lines_within_pre [OF this short pre long]
    obtain tail where tail: "pre = wire_lines ls @ tail" by blast
    have "r = None"
    proof (cases r)
      case (Some c'')
      with fin have "rest' = []" by simp
      with s stream tail have "b = tail @ long @ rest" by simp
      with rest len have "CTRL_BUF_SIZE \<le> length b" by (cases rest) auto
      with bl show ?thesis by simp
    qed simp
    with tail ll show ?thesis by blast
  qed
  from a b c show ?thesis by blast
qed

theorem session_buffer_bounded_witness:
  "concat [''ab'' @ [LF], replicate 4095 (CHR ''x'') @ [LF]]
      = (''ab'' @ [LF]) @ replicate 4095 (CHR ''x'') @ [LF]
   \<and> last (''ab'' @ [LF]) = LF \<and> LF \<notin> set (replicate 4095 (CHR ''x''))
   \<and> CTRL_BUF_SIZE - 1 \<le> length (replicate 4095 (CHR ''x''))
   \<and> fst (ctrl_session_run \<lparr>fd = 5, buf = []\<rparr> [] [''ab'' @ [LF], replicate 4095 (CHR ''x'') @ [LF]]) = None
   \<and> (\<exists>tail. ''ab'' @ [LF]
         = wire_lines (snd (ctrl_session_run \<lparr>fd = 5, buf = []\<rparr> []
                              [''ab'' @ [LF], replicate 4095 (CHR ''x'') @ [LF]])) @ tail)"
proof -
  let ?arr = "[''ab'' @ [LF], replicate 4095 (CHR ''x'') @ [LF]]"
  let ?run = "ctrl_session_run \<lparr>fd = 5, buf = []\<rparr> [] ?arr"
  have h1: "?run = (fst ?run, snd ?run)" by simp
  have h2: "concat ?arr = (''ab'' @ [LF]) @ replicate 4095 (CHR ''x'') @ [LF]" by simp
  have h3: "''ab'' @ [LF] = [] \<or> last (''ab'' @ [LF]) = LF" by simp
  have h4: "LF \<notin> set (replicate 4095 (CHR ''x''))" by (simp add: LF_def)
  have h5: "CTRL_BUF_SIZE - 1 \<le> length (replicate 4095 (CHR ''x''))"
    by (simp add: CTRL_BUF_SIZE_def)
  have h6: "[LF] \<noteq> []" by simp
  from session_buffer_bounded [of "[]" "\<lparr>fd = 5, buf = []\<rparr>" "[]" "\<lparr>fd = 5, buf = []\<rparr>" "[]" "[]"
      5 ?arr "fst ?run" "snd ?run" "''ab'' @ [LF]" "replicate 4095 (CHR ''x'')" "[LF]"]
    h1 h2 h3 h4 h5 h6
  have "fst ?run = None \<and> (\<exists>tail. ''ab'' @ [LF] = wire_lines (snd ?run) @ tail)"
    by blast
  with h2 h4 h5 show ?thesis by simp
qed


section \<open>The path a load command delivers\<close>

text \<open>
  The reassembly loop of \<^verbatim>\<open>cdload\<close> rejoins the tokens from the third on with single
  spaces. Its length check fires on a first token of \<^verbatim>\<open>PATH_MAX - 1\<close> bytes or more, and
  later as soon as the rejoined text reaches \<^verbatim>\<open>PATH_MAX\<close> bytes.
\<close>

lemma join_sp_Cons: "join_sp (t # ts) = t @ concat (map ((#) (CHR '' '')) ts)"
  by (induction ts arbitrary: t) simp_all

lemma cdload_path_tail:
  assumes "i \<le> cmdargc" and "cmdargc \<le> length xargv" and "2 < i" and "length fn < pmax"
  shows "cdload_path pmax xargv cmdargc i fn
     = Inr (if pmax \<le> length (fn @ concat (map ((#) (CHR '' '')) (drop i (take cmdargc xargv))))
            then None
            else Some (fn @ concat (map ((#) (CHR '' '')) (drop i (take cmdargc xargv)))))"
  using assms
proof (induction pmax xargv cmdargc i fn rule: cdload_path.induct)
  case (1 pmax xargv cmdargc i fn)
  show ?case
  proof (cases "i < cmdargc")
    case False
    with "1.prems" show ?thesis
      by (subst cdload_path.simps) simp
  next
    case True
    with "1.prems" have dr: "drop i (take cmdargc xargv) = xargv ! i # drop (Suc i) (take cmdargc xargv)"
      by (simp add: Cons_nth_drop_Suc [symmetric])
    show ?thesis
    proof (cases "pmax \<le> length fn + length (xargv ! i) + 1")
      case long: True
      with True show ?thesis
        by (subst cdload_path.simps) (simp add: dr)
    next
      case fits: False
      let ?fn2 = "fn @ '' '' @ xargv ! i"
      from fits have s1: "strcat_fn pmax fn '' '' = Inr (fn @ '' '')"
        and s2: "strcat_fn pmax (fn @ '' '') (xargv ! i) = Inr ?fn2"
        by (simp_all add: strcat_fn_def)
      from fits have l2: "length ?fn2 < pmax" by simp
      from "1.prems"(3) s1 have c1: "(if 2 < i then strcat_fn pmax fn '' '' else Inr fn) = Inr (fn @ '' '')"
        by simp
      from True "1.prems"(3) have b: "i + 1 \<le> cmdargc" "2 < i + 1" by simp_all
      from "1.IH" [OF True fits c1 s2 b(1) "1.prems"(2) b(2) l2]
      have "cdload_path pmax xargv cmdargc (i + 1) ?fn2
        = Inr (if pmax \<le> length (?fn2 @ concat (map ((#) (CHR '' '')) (drop (Suc i) (take cmdargc xargv))))
               then None
               else Some (?fn2 @ concat (map ((#) (CHR '' '')) (drop (Suc i) (take cmdargc xargv)))))"
        by simp
      with True fits s1 s2 "1.prems"(3) show ?thesis
        by (subst cdload_path.simps) (simp add: dr)
    qed
  qed
qed

lemma cdload_path_join:
  assumes "3 \<le> cmdargc" and "cmdargc \<le> length xargv"
  shows "cdload_path pmax xargv cmdargc 2 []
     = Inr (if pmax \<le> length (xargv ! 2) + 1 \<or> pmax \<le> length (join_sp (drop 2 (take cmdargc xargv)))
            then None else Some (join_sp (drop 2 (take cmdargc xargv))))"
proof -
  from assms have dr: "drop 2 (take cmdargc xargv) = xargv ! 2 # drop 3 (take cmdargc xargv)"
    using Cons_nth_drop_Suc [of 2 "take cmdargc xargv"] by (simp add: numeral_3_eq_3)
  show ?thesis
  proof (cases "pmax \<le> length (xargv ! 2) + 1")
    case True
    with assms show ?thesis
      by (subst cdload_path.simps) simp
  next
    case False
    then have s: "strcat_fn pmax [] (xargv ! 2) = Inr (xargv ! 2)" and l: "length (xargv ! 2) < pmax"
      by (simp_all add: strcat_fn_def)
    from assms have "3 \<le> cmdargc" "(2::nat) < 3" by simp_all
    from cdload_path_tail [OF this(1) assms(2) this(2) l] False s assms(1)
    show ?thesis
      by (subst cdload_path.simps) (simp add: dr join_sp_Cons)
  qed
qed

lemma cdload_branch_path:
  assumes "3 \<le> cmdargc" and "cmdargc \<le> length xargv" and "atoi_u8 (xargv ! 1) = Inr id8"
    and "unat id8 < CDROM_NUM l"
  shows "cdload_branch l xargv cmdargc
     = (if PATH_MAX l \<le> length (xargv ! 2) + 1
           \<or> PATH_MAX l \<le> length (join_sp (drop 2 (take cmdargc xargv)))
        then Inr [Send (''ERR path too long'' @ [LF])]
        else Inr [Cdrom_mount id8 (join_sp (drop 2 (take cmdargc xargv))),
                  Send (''OK cdrom '' @ dec (unat id8) @ '' loaded'' @ [LF])])"
  using assms by (simp add: cdload_branch_def arg_def cdload_path_join)

lemma media3_plain:
  assumes "plain_path (xargv ! 2)" and "length (xargv ! 2) < pmax"
    and "atoi_u8 (xargv ! 1) = Inr id8" and "atoi_u8 (xargv ! 3) = Inr wp"
  shows "ctrl_process_media_commands_3 pmax fn xargv cmdargc = Inr (id8, xargv ! 2, Some wp, False)"
proof -
  from assms(1) have ne: "xargv ! 2 \<noteq> []" and nq: "\<not> is_quote (hd (xargv ! 2))"
    and nl: "\<not> is_quote (last (xargv ! 2))"
    by (auto simp: plain_path_def)
  from ne nq have "\<not> starts_quoted (xargv ! 2)"
    by (cases "xargv ! 2") (auto simp: starts_quoted_def)
  with assms ne nl show ?thesis
    by (simp add: ctrl_process_media_commands_3_def last_char_def)
qed

lemma load3_branch_plain:
  assumes "4 \<le> cmdargc" and "cmdargc \<le> length xargv"
    and "plain_path (xargv ! 2)" and "length (xargv ! 2) < pmax"
    and "atoi_u8 (xargv ! 1) = Inr id8" and "atoi_u8 (xargv ! 3) = Inr wp" and "unat id8 < num"
  shows "load3_branch pmax num mount cls xargv cmdargc
     = Inr [mount id8 (xargv ! 2) (Some wp), Send (''OK '' @ cls @ '' '' @ dec (unat id8) @ '' loaded'' @ [LF])]"
proof -
  from assms(3) have "xargv ! 2 \<noteq> []" "\<not> is_quote (last (xargv ! 2))"
    by (auto simp: plain_path_def)
  with assms media3_plain [OF assms(3-6), of "[]" cmdargc] show ?thesis
    by (simp add: load3_branch_def arg_def last_char_def)
qed

text \<open>
  In terms of the parsed argument vector: \<^verbatim>\<open>cdload\<close> rejoins the stored tokens from the third
  on, and the three-argument load commands take the third token alone when it is plain.
\<close>

lemma load_path_argv:
  assumes p: "ctrl_parse_line line = Some (xargv, cmdargc)"
    and a: "atoi_u8 (xargv ! 1) = Inr id8"
  shows
    "(strcasecmp_eq (xargv ! 0) ''cdload'' \<and> 3 \<le> cmdargc \<and> unat id8 < CDROM_NUM (lim h)
        \<longrightarrow> ctrl_handle_command h line
            = (if PATH_MAX (lim h) \<le> length (xargv ! 2) + 1
                  \<or> PATH_MAX (lim h) \<le> length (join_sp (drop 2 (take cmdargc xargv)))
               then Inr [Send (''ERR path too long'' @ [LF])]
               else Inr [Cdrom_mount id8 (join_sp (drop 2 (take cmdargc xargv))),
                         Send (''OK cdrom '' @ dec (unat id8) @ '' loaded'' @ [LF])]))
   \<and> (4 \<le> cmdargc \<and> plain_path (xargv ! 2) \<and> length (xargv ! 2) < PATH_MAX (lim h)
        \<and> atoi_u8 (xargv ! 3) = Inr wp
        \<longrightarrow> (strcasecmp_eq (xargv ! 0) ''fddload'' \<and> unat id8 < FDD_NUM (lim h)
              \<longrightarrow> ctrl_handle_command h line
                  = Inr [Floppy_mount id8 (xargv ! 2) (Some wp),
                         Send (''OK fdd '' @ dec (unat id8) @ '' loaded'' @ [LF])])
          \<and> (strcasecmp_eq (xargv ! 0) ''moload'' \<and> unat id8 < MO_NUM (lim h)
              \<longrightarrow> ctrl_handle_command h line
                  = Inr [Mo_mount id8 (xargv ! 2) (Some wp),
                         Send (''OK mo '' @ dec (unat id8) @ '' loaded'' @ [LF])])
          \<and> (strcasecmp_eq (xargv ! 0) ''rdiskload'' \<and> unat id8 < RDISK_NUM (lim h)
              \<longrightarrow> ctrl_handle_command h line
                  = Inr [Rdisk_mount id8 (xargv ! 2) (Some wp),
                         Send (''OK rdisk '' @ dec (unat id8) @ '' loaded'' @ [LF])])
          \<and> (strcasecmp_eq (xargv ! 0) ''cartload'' \<and> unat id8 < 2
              \<longrightarrow> ctrl_handle_command h line
                  = Inr [Cartridge_mount id8 (xargv ! 2) (Some wp),
                         Send (''OK cartridge '' @ dec (unat id8) @ '' loaded'' @ [LF])]))"
proof -
  note len = ctrl_parse_line_cmdargc [OF p]
  note hp = handle_parsed [OF p, of h]
  have cd: "strcasecmp_eq (xargv ! 0) ''cdload'' \<and> 3 \<le> cmdargc \<and> unat id8 < CDROM_NUM (lim h)
        \<longrightarrow> ctrl_handle_command h line
            = (if PATH_MAX (lim h) \<le> length (xargv ! 2) + 1
                  \<or> PATH_MAX (lim h) \<le> length (join_sp (drop 2 (take cmdargc xargv)))
               then Inr [Send (''ERR path too long'' @ [LF])]
               else Inr [Cdrom_mount id8 (join_sp (drop 2 (take cmdargc xargv))),
                         Send (''OK cdrom '' @ dec (unat id8) @ '' loaded'' @ [LF])])"
    using cdload_branch_path [OF _ len a, of "lim h"] by (simp add: hp dispatch_cdload)
  have ld: "ctrl_handle_command h line
        = Inr [mount id8 (xargv ! 2) (Some wp), Send (''OK '' @ cls @ '' '' @ dec (unat id8) @ '' loaded'' @ [LF])]"
    if "ctrl_dispatch h xargv cmdargc = load3_branch (PATH_MAX (lim h)) num mount cls xargv cmdargc"
      and "4 \<le> cmdargc" "plain_path (xargv ! 2)" "length (xargv ! 2) < PATH_MAX (lim h)"
      "atoi_u8 (xargv ! 3) = Inr wp" "unat id8 < num" for num mount cls
    using that load3_branch_plain [OF that(2) len that(3) that(4) a that(5) that(6), of mount cls]
    by (simp add: hp)
  show ?thesis
    using cd ld [OF dispatch_fddload] ld [OF dispatch_moload] ld [OF dispatch_rdiskload]
      ld [OF dispatch_cartload]
    by simp
qed

text \<open>
  The tokeniser splits the line text at every space, empty tokens included, and stores the
  first 511 tokens: the argument vector begins with \<^verbatim>\<open>line_tokens\<close>, and \<^verbatim>\<open>cmdargc\<close> is their
  number. Rejoining the tokens of a text with single spaces gives the text back.
\<close>

lemma split_sp_ne [simp]: "split_sp s \<noteq> []"
  by (induction s) simp_all

lemma split_sp_strcspn:
  "split_sp s = take (strcspn s '' '') s
     # (if strcspn s '' '' < length s then split_sp (drop (Suc (strcspn s '' '')) s) else [])"
proof (induction s)
  case Nil
  show ?case by simp
next
  case (Cons c cs)
  show ?case
  proof (cases "c = CHR '' ''")
    case True
    then show ?thesis by simp
  next
    case False
    with Cons show ?thesis by (simp split: if_splits)
  qed
qed

lemma ctrl_tokenize_None: "ctrl_tokenize None acc = (acc, length acc)"
  by (subst ctrl_tokenize.simps) simp

lemma ctrl_tokenize_split:
  "length acc < 512 \<Longrightarrow>
   ctrl_tokenize (Some s) acc
     = (if length acc + length (split_sp s) < 512
        then (acc @ split_sp s, length acc + length (split_sp s))
        else (acc @ take (512 - length acc) (split_sp s), 511))"
proof (induction "length s" arbitrary: s acc rule: less_induct)
  case less
  let ?n = "strcspn s '' ''"
  let ?tok = "take ?n s"
  note sp = split_sp_strcspn [of s]
  show ?case
  proof (cases "?n < length s")
    case False
    then have ts: "split_sp s = [?tok]" using sp by simp
    from False have ss: "ctrl_strsep (Some s) '' '' = (Some s, None)" by (simp add: Let_def)
    from False have tk: "?tok = s" by simp
    show ?thesis
      using less.prems ss
      by (subst ctrl_tokenize.simps) (auto simp: ts tk ctrl_tokenize_None simp del: ctrl_strsep.simps)
  next
    case True
    let ?r = "drop (Suc ?n) s"
    from True have ts: "split_sp s = ?tok # split_sp ?r" using sp by simp
    from True have ss: "ctrl_strsep (Some s) '' '' = (Some ?tok, Some ?r)" by (simp add: Let_def)
    show ?thesis
    proof (cases "512 \<le> Suc (length acc)")
      case full: True
      with less.prems have la: "length acc = 511" by simp
      show ?thesis
        using ss by (subst ctrl_tokenize.simps) (simp add: ts la del: ctrl_strsep.simps)
    next
      case room: False
      from True have "length ?r < length s" by simp
      from less.hyps [OF this, of "acc @ [?tok]"] room
      have ih: "ctrl_tokenize (Some ?r) (acc @ [?tok])
         = (if length (acc @ [?tok]) + length (split_sp ?r) < 512
            then ((acc @ [?tok]) @ split_sp ?r, length (acc @ [?tok]) + length (split_sp ?r))
            else ((acc @ [?tok]) @ take (512 - length (acc @ [?tok])) (split_sp ?r), 511))"
        by simp
      have tk: "take (512 - length acc) (?tok # split_sp ?r)
          = ?tok # take (512 - Suc (length acc)) (split_sp ?r)"
        using room by (simp add: take_Cons')
      show ?thesis
        using room ss ih
        by (subst ctrl_tokenize.simps) (simp add: ts tk del: ctrl_strsep.simps)
    qed
  qed
qed

lemma parse_line_tokens:
  assumes "line_text line \<noteq> []"
  shows "\<exists>xargv. ctrl_parse_line line = Some (xargv, length (line_tokens line))
           \<and> take (length (line_tokens line)) xargv = line_tokens line"
proof -
  let ?ts = "split_sp (line_text line)"
  have tok: "ctrl_tokenize (Some (line_text line)) []
     = (if length ?ts < 512 then (?ts, length ?ts) else (take 512 ?ts, 511))"
    using ctrl_tokenize_split [of "[]" "line_text line"] by simp
  show ?thesis
  proof (cases "length ?ts < 512")
    case True
    with assms tok show ?thesis
      by (simp add: ctrl_parse_line_def line_text_def [symmetric] line_tokens_def Let_def)
  next
    case False
    then have "take 511 (take 512 ?ts) = take 511 ?ts" by simp
    with False assms tok show ?thesis
      by (simp add: ctrl_parse_line_def line_text_def [symmetric] line_tokens_def min_def Let_def)
  qed
qed

lemma split_sp_append:
  "CHR '' '' \<notin> set a \<Longrightarrow> split_sp (a @ CHR '' '' # b) = a # split_sp b"
  by (induction a) auto

lemma join_split_sp: "join_sp (split_sp s) = s"
proof (induction s)
  case Nil
  show ?case by simp
next
  case (Cons c cs)
  obtain t ts where ts: "split_sp cs = t # ts" by (cases "split_sp cs") auto
  show ?case
  proof (cases "c = CHR '' ''")
    case True
    with Cons ts show ?thesis by simp
  next
    case False
    with Cons ts show ?thesis by (cases ts) simp_all
  qed
qed

lemma line_tokens_exact:
  assumes "line_text line = cmd @ '' '' @ idt @ '' '' @ path"
    and "CHR '' '' \<notin> set cmd" and "CHR '' '' \<notin> set idt" and "length (split_sp path) \<le> 509"
  shows "line_tokens line = cmd # idt # split_sp path"
    and "join_sp (drop 2 (line_tokens line)) = path"
proof -
  from assms(1-3) have "split_sp (line_text line) = cmd # idt # split_sp path"
    by (simp add: split_sp_append)
  with assms(4) show "line_tokens line = cmd # idt # split_sp path"
    by (simp add: line_tokens_def)
  then show "join_sp (drop 2 (line_tokens line)) = path"
    by (simp add: join_split_sp)
qed

text \<open>
  Claim C4, as the code has it. The tokens of a line are the first 511 pieces of its text
  between spaces; the tokeniser stores no more. A \<^verbatim>\<open>cdload\<close> line with a valid id delivers
  to \<^verbatim>\<open>cdrom_mount\<close> its tokens after the id rejoined with single spaces (it has no
  write-protect token), unless the length check fires: then the reply is
  \<^verbatim>\<open>ERR path too long\<close> and nothing is mounted; the check fires whenever the rejoined
  length reaches \<^verbatim>\<open>PATH_MAX\<close> (and also on a single token of \<^verbatim>\<open>PATH_MAX - 1\<close> bytes).
  When the line text is a command word, one space, an id, one space and a path of at most
  509 pieces, the rejoined tokens are the path byte for byte; of a longer path only the
  first 509 pieces are delivered. The four three-argument load commands, given a valid id and a
  plain third token shorter than \<^verbatim>\<open>PATH_MAX\<close>, deliver exactly the third token as the path
  and the fourth token as the write-protect flag, whatever tokens follow.
\<close>

theorem load_path_delivered:
  assumes t: "line_text line \<noteq> []" and a: "atoi_u8 (line_tokens line ! 1) = Inr id8"
  shows
    "(strcasecmp_eq (line_tokens line ! 0) ''cdload'' \<and> 3 \<le> length (line_tokens line)
        \<and> unat id8 < CDROM_NUM (lim h)
        \<longrightarrow> ctrl_handle_command h line
            = (if PATH_MAX (lim h) \<le> length (line_tokens line ! 2) + 1
                  \<or> PATH_MAX (lim h) \<le> length (join_sp (drop 2 (line_tokens line)))
               then Inr [Send (''ERR path too long'' @ [LF])]
               else Inr [Cdrom_mount id8 (join_sp (drop 2 (line_tokens line))),
                         Send (''OK cdrom '' @ dec (unat id8) @ '' loaded'' @ [LF])]))
   \<and> (line_text line = cmd @ '' '' @ idt @ '' '' @ path
        \<and> CHR '' '' \<notin> set cmd \<and> CHR '' '' \<notin> set idt \<and> length (split_sp path) \<le> 509
        \<longrightarrow> line_tokens line = cmd # idt # split_sp path
            \<and> join_sp (drop 2 (line_tokens line)) = path)
   \<and> (4 \<le> length (line_tokens line) \<and> plain_path (line_tokens line ! 2)
        \<and> length (line_tokens line ! 2) < PATH_MAX (lim h)
        \<and> atoi_u8 (line_tokens line ! 3) = Inr wp
        \<longrightarrow> (strcasecmp_eq (line_tokens line ! 0) ''fddload'' \<and> unat id8 < FDD_NUM (lim h)
              \<longrightarrow> ctrl_handle_command h line
                  = Inr [Floppy_mount id8 (line_tokens line ! 2) (Some wp),
                         Send (''OK fdd '' @ dec (unat id8) @ '' loaded'' @ [LF])])
          \<and> (strcasecmp_eq (line_tokens line ! 0) ''moload'' \<and> unat id8 < MO_NUM (lim h)
              \<longrightarrow> ctrl_handle_command h line
                  = Inr [Mo_mount id8 (line_tokens line ! 2) (Some wp),
                         Send (''OK mo '' @ dec (unat id8) @ '' loaded'' @ [LF])])
          \<and> (strcasecmp_eq (line_tokens line ! 0) ''rdiskload'' \<and> unat id8 < RDISK_NUM (lim h)
              \<longrightarrow> ctrl_handle_command h line
                  = Inr [Rdisk_mount id8 (line_tokens line ! 2) (Some wp),
                         Send (''OK rdisk '' @ dec (unat id8) @ '' loaded'' @ [LF])])
          \<and> (strcasecmp_eq (line_tokens line ! 0) ''cartload'' \<and> unat id8 < 2
              \<longrightarrow> ctrl_handle_command h line
                  = Inr [Cartridge_mount id8 (line_tokens line ! 2) (Some wp),
                         Send (''OK cartridge '' @ dec (unat id8) @ '' loaded'' @ [LF])]))"
proof -
  let ?toks = "line_tokens line"
  from parse_line_tokens [OF t] obtain xargv where
    p: "ctrl_parse_line line = Some (xargv, length ?toks)"
    and tk: "take (length ?toks) xargv = ?toks"
    by blast
  from tk have d: "drop 2 (take (length ?toks) xargv) = drop 2 ?toks" by simp
  have ne: "?toks \<noteq> []" by (simp add: line_tokens_def)
  have n: "xargv ! i = ?toks ! i" if "i < length ?toks" for i
  proof -
    from that have "take (length ?toks) xargv ! i = xargv ! i" by simp
    with tk show ?thesis by simp
  qed
  have cd: "ctrl_handle_command h line
            = (if PATH_MAX (lim h) \<le> length (?toks ! 2) + 1
                  \<or> PATH_MAX (lim h) \<le> length (join_sp (drop 2 ?toks))
               then Inr [Send (''ERR path too long'' @ [LF])]
               else Inr [Cdrom_mount id8 (join_sp (drop 2 ?toks)),
                         Send (''OK cdrom '' @ dec (unat id8) @ '' loaded'' @ [LF])])"
    if c: "strcasecmp_eq (?toks ! 0) ''cdload''" and l: "3 \<le> length ?toks"
      and v: "unat id8 < CDROM_NUM (lim h)"
  proof -
    from l ne n [of 0] n [of 1] n [of 2]
    have i: "xargv ! 0 = ?toks ! 0" "xargv ! 1 = ?toks ! 1" "xargv ! 2 = ?toks ! 2"
      by auto
    from a i have a': "atoi_u8 (xargv ! 1) = Inr id8" by simp
    from load_path_argv [OF p a', of h] c l v i d show ?thesis by simp
  qed
  have ld: "(strcasecmp_eq (?toks ! 0) ''fddload'' \<and> unat id8 < FDD_NUM (lim h)
              \<longrightarrow> ctrl_handle_command h line
                  = Inr [Floppy_mount id8 (?toks ! 2) (Some wp),
                         Send (''OK fdd '' @ dec (unat id8) @ '' loaded'' @ [LF])])
          \<and> (strcasecmp_eq (?toks ! 0) ''moload'' \<and> unat id8 < MO_NUM (lim h)
              \<longrightarrow> ctrl_handle_command h line
                  = Inr [Mo_mount id8 (?toks ! 2) (Some wp),
                         Send (''OK mo '' @ dec (unat id8) @ '' loaded'' @ [LF])])
          \<and> (strcasecmp_eq (?toks ! 0) ''rdiskload'' \<and> unat id8 < RDISK_NUM (lim h)
              \<longrightarrow> ctrl_handle_command h line
                  = Inr [Rdisk_mount id8 (?toks ! 2) (Some wp),
                         Send (''OK rdisk '' @ dec (unat id8) @ '' loaded'' @ [LF])])
          \<and> (strcasecmp_eq (?toks ! 0) ''cartload'' \<and> unat id8 < 2
              \<longrightarrow> ctrl_handle_command h line
                  = Inr [Cartridge_mount id8 (?toks ! 2) (Some wp),
                         Send (''OK cartridge '' @ dec (unat id8) @ '' loaded'' @ [LF])])"
    if l: "4 \<le> length ?toks" and pl: "plain_path (?toks ! 2)"
      and f: "length (?toks ! 2) < PATH_MAX (lim h)" and w: "atoi_u8 (?toks ! 3) = Inr wp"
  proof -
    from l ne n [of 0] n [of 1] n [of 2] n [of 3]
    have i: "xargv ! 0 = ?toks ! 0" "xargv ! 1 = ?toks ! 1" "xargv ! 2 = ?toks ! 2"
      "xargv ! 3 = ?toks ! 3"
      by auto
    from a i have a': "atoi_u8 (xargv ! 1) = Inr id8" by simp
    from load_path_argv [OF p a', of h wp] l pl f w i show ?thesis by simp
  qed
  from cd ld line_tokens_exact [of line cmd idt path] show ?thesis by blast
qed

theorem load_path_delivered_witness:
  "line_text ''cdload 0 /tmp/a b.iso'' = ''cdload'' @ '' '' @ ''0'' @ '' '' @ ''/tmp/a b.iso''
   \<and> line_tokens ''cdload 0 /tmp/a b.iso'' = [''cdload'', ''0'', ''/tmp/a'', ''b.iso'']
   \<and> ctrl_handle_command sample_host ''cdload 0 /tmp/a b.iso''
       = Inr [Cdrom_mount 0 ''/tmp/a b.iso'', Send (''OK cdrom 0 loaded'' @ [LF])]
   \<and> line_tokens ''fddload 0 a.img 1'' = [''fddload'', ''0'', ''a.img'', ''1'']
   \<and> plain_path ''a.img''
   \<and> ctrl_handle_command sample_host ''fddload 0 a.img 1''
       = Inr [Floppy_mount 0 ''a.img'' (Some 1), Send (''OK fdd 0 loaded'' @ [LF])]"
proof -
  let ?cd = "''cdload 0 /tmp/a b.iso''"
  let ?fd = "''fddload 0 a.img 1''"
  have t1: "line_text ?cd \<noteq> []" and t2: "line_text ?fd \<noteq> []" by code_simp+
  have x1: "line_text ?cd = ''cdload'' @ '' '' @ ''0'' @ '' '' @ ''/tmp/a b.iso''" by code_simp
  have k1: "line_tokens ?cd = [''cdload'', ''0'', ''/tmp/a'', ''b.iso'']" by code_simp
  have k2: "line_tokens ?fd = [''fddload'', ''0'', ''a.img'', ''1'']" by code_simp
  have a1: "atoi_u8 (line_tokens ?cd ! 1) = Inr 0" by code_simp
  have a2: "atoi_u8 (line_tokens ?fd ! 1) = Inr 0" by code_simp
  have w: "atoi_u8 (line_tokens ?fd ! 3) = Inr 1" by code_simp
  have c1: "strcasecmp_eq (line_tokens ?cd ! 0) ''cdload''" by code_simp
  have c2: "strcasecmp_eq (line_tokens ?fd ! 0) ''fddload''" by code_simp
  have pl: "plain_path ''a.img''" by code_simp
  have l: "CDROM_NUM (lim sample_host) = 8" "FDD_NUM (lim sample_host) = 4"
    "PATH_MAX (lim sample_host) = 4096"
    by (simp_all add: sample_host_def sample_limits_def)
  have d: "dec 0 = ''0''" by code_simp
  have n1: "CHR '' '' \<notin> set ''cdload''" "CHR '' '' \<notin> set ''0''"
    "length (split_sp ''/tmp/a b.iso'') \<le> 509"
    by code_simp+
  note th = load_path_delivered [OF t1 a1, of sample_host "''cdload''" "''0''" "''/tmp/a b.iso''"]
  from th x1 n1 have j: "join_sp (drop 2 (line_tokens ?cd)) = ''/tmp/a b.iso''" by blast
  from j have j2: "join_sp [''/tmp/a'', ''b.iso''] = ''/tmp/a b.iso''" by (simp add: k1)
  from th c1 l have r1: "ctrl_handle_command sample_host ?cd
       = Inr [Cdrom_mount 0 ''/tmp/a b.iso'', Send (''OK cdrom 0 loaded'' @ [LF])]"
    by (simp add: k1 j2 d)
  from load_path_delivered [OF t2 a2, of sample_host _ _ _ 1] c2 l w pl
  have r2: "ctrl_handle_command sample_host ?fd
       = Inr [Floppy_mount 0 ''a.img'' (Some 1), Send (''OK fdd 0 loaded'' @ [LF])]"
    by (simp add: d k2)
  from x1 k1 k2 r1 r2 pl show ?thesis by simp
qed

text \<open>
  Claim C4 as stated fails for the three-argument commands: \<^verbatim>\<open>fddload 0 my file.img 1\<close>
  has the tokens \<^verbatim>\<open>my\<close> and \<^verbatim>\<open>file.img\<close> between the id and the trailing flag, and the
  path delivered is \<^verbatim>\<open>my\<close>, with the flag read from \<^verbatim>\<open>file.img\<close>.
\<close>

theorem unquoted_space_path_counterexample:
  "ctrl_parse_line ''fddload 0 my file.img 1'' = Some ([''fddload'', ''0'', ''my'', ''file.img'', ''1''], 5)
   \<and> join_sp [''my'', ''file.img''] = ''my file.img''
   \<and> ctrl_handle_command sample_host ''fddload 0 my file.img 1''
       = Inr [Floppy_mount 0 ''my'' (Some 0), Send (''OK fdd 0 loaded'' @ [LF])]
   \<and> ''my'' \<noteq> ''my file.img''"
  by code_simp

section \<open>Drive ids are cut to eight bits\<close>

text \<open>
  The id is stored in a \<^verbatim>\<open>uint8_t\<close>: what is compared with the unit count and handed to the
  collaborator is the value of \<^verbatim>\<open>atoi\<close> modulo 256.
\<close>

lemma unat_u8_of_int: "unat (word_of_int v :: 8 word) = nat (v mod 256)"
  by (simp add: unat_eq_nat_uint uint_word_of_int take_bit_eq_mod)

lemma atoi_u8_of_atoi: "atoi s = Inr v \<Longrightarrow> atoi_u8 s = Inr (word_of_int v)"
  by (simp add: atoi_u8_def)

lemma load3_branch_plain_id:
  assumes "4 \<le> cmdargc" and "cmdargc \<le> length xargv"
    and "plain_path (xargv ! 2)" and "length (xargv ! 2) < pmax"
    and "atoi_u8 (xargv ! 1) = Inr id8" and "atoi_u8 (xargv ! 3) = Inr wp"
  shows "load3_branch pmax num mount cls xargv cmdargc
     = (if num \<le> unat id8 then Inr [Send (''ERR invalid arguments'' @ [LF])]
        else Inr [mount id8 (xargv ! 2) (Some wp),
                  Send (''OK '' @ cls @ '' '' @ dec (unat id8) @ '' loaded'' @ [LF])])"
proof -
  from assms(3) have "xargv ! 2 \<noteq> []" "\<not> is_quote (last (xargv ! 2))"
    by (auto simp: plain_path_def)
  with assms media3_plain [OF assms(3-6), of "[]" cmdargc] show ?thesis
    by (simp add: load3_branch_def arg_def last_char_def)
qed

lemma eject_branch_id:
  "atoi_u8 (xargv ! 1) = Inr id8 \<Longrightarrow>
   eject_branch num eject cls xargv
     = (if num \<le> unat id8 then Inr [Send (''ERR invalid drive id'' @ [LF])]
        else Inr [eject id8, Send (''OK '' @ cls @ '' '' @ dec (unat id8) @ '' ejected'' @ [LF])])"
  by (simp add: eject_branch_def)

lemma cdload_branch_id:
  assumes "3 \<le> cmdargc" and "cmdargc \<le> length xargv" and "atoi_u8 (xargv ! 1) = Inr id8"
  shows "cdload_branch l xargv cmdargc
     = (if CDROM_NUM l \<le> unat id8 then Inr [Send (''ERR invalid drive id'' @ [LF])]
        else if PATH_MAX l \<le> length (xargv ! 2) + 1
           \<or> PATH_MAX l \<le> length (join_sp (drop 2 (take cmdargc xargv)))
        then Inr [Send (''ERR path too long'' @ [LF])]
        else Inr [Cdrom_mount id8 (join_sp (drop 2 (take cmdargc xargv))),
                  Send (''OK cdrom '' @ dec (unat id8) @ '' loaded'' @ [LF])])"
  using assms by (simp add: cdload_branch_def arg_def cdload_path_join)

text \<open>
  Claim C10. In every load and eject command the id is the value \<^verbatim>\<open>v\<close> that \<^verbatim>\<open>atoi\<close> reads
  from the second token, cut to eight bits before the range check: the id compared with
  the unit count, passed to the collaborator and printed in the reply is \<^verbatim>\<open>v mod 256\<close>. So
  the id texts \<^verbatim>\<open>256\<close>, \<^verbatim>\<open>257\<close> and \<^verbatim>\<open>-255\<close> select drives 0, 1 and 1, and \<^verbatim>\<open>128\<close> is
  out of range for eight drives.
\<close>

theorem id_truncated_to_8_bits:
  assumes p: "ctrl_parse_line line = Some (xargv, cmdargc)" and a: "atoi (xargv ! 1) = Inr v"
  shows
    "atoi_u8 (xargv ! 1) = Inr (word_of_int v) \<and> unat (word_of_int v :: 8 word) = nat (v mod 256)
   \<and> (strcasecmp_eq (xargv ! 0) ''cdeject'' \<and> 2 \<le> cmdargc
        \<longrightarrow> ctrl_handle_command h line
            = (if CDROM_NUM (lim h) \<le> nat (v mod 256) then Inr [Send (''ERR invalid drive id'' @ [LF])]
               else Inr [Cdrom_mount (word_of_int v) [],
                         Send (''OK cdrom '' @ dec (nat (v mod 256)) @ '' ejected'' @ [LF])]))
   \<and> (strcasecmp_eq (xargv ! 0) ''fddeject'' \<and> 2 \<le> cmdargc
        \<longrightarrow> ctrl_handle_command h line
            = (if FDD_NUM (lim h) \<le> nat (v mod 256) then Inr [Send (''ERR invalid drive id'' @ [LF])]
               else Inr [Floppy_eject (word_of_int v),
                         Send (''OK fdd '' @ dec (nat (v mod 256)) @ '' ejected'' @ [LF])]))
   \<and> (strcasecmp_eq (xargv ! 0) ''moeject'' \<and> 2 \<le> cmdargc
        \<longrightarrow> ctrl_handle_command h line
            = (if MO_NUM (lim h) \<le> nat (v mod 256) then Inr [Send (''ERR invalid drive id'' @ [LF])]
               else Inr [Mo_eject (word_of_int v),
                         Send (''OK mo '' @ dec (nat (v mod 256)) @ '' ejected'' @ [LF])]))
   \<and> (strcasecmp_eq (xargv ! 0) ''rdiskeject'' \<and> 2 \<le> cmdargc
        \<longrightarrow> ctrl_handle_command h line
            = (if RDISK_NUM (lim h) \<le> nat (v mod 256) then Inr [Send (''ERR invalid drive id'' @ [LF])]
               else Inr [Rdisk_eject (word_of_int v),
                         Send (''OK rdisk '' @ dec (nat (v mod 256)) @ '' ejected'' @ [LF])]))
   \<and> (strcasecmp_eq (xargv ! 0) ''carteject'' \<and> 2 \<le> cmdargc
        \<longrightarrow> ctrl_handle_command h line
            = (if 2 \<le> nat (v mod 256) then Inr [Send (''ERR invalid drive id'' @ [LF])]
               else Inr [Cartridge_eject (word_of_int v),
                         Send (''OK cartridge '' @ dec (nat (v mod 256)) @ '' ejected'' @ [LF])]))
   \<and> (strcasecmp_eq (xargv ! 0) ''cdload'' \<and> 3 \<le> cmdargc
        \<longrightarrow> ctrl_handle_command h line
            = (if CDROM_NUM (lim h) \<le> nat (v mod 256) then Inr [Send (''ERR invalid drive id'' @ [LF])]
               else if PATH_MAX (lim h) \<le> length (xargv ! 2) + 1
                  \<or> PATH_MAX (lim h) \<le> length (join_sp (drop 2 (take cmdargc xargv)))
               then Inr [Send (''ERR path too long'' @ [LF])]
               else Inr [Cdrom_mount (word_of_int v) (join_sp (drop 2 (take cmdargc xargv))),
                         Send (''OK cdrom '' @ dec (nat (v mod 256)) @ '' loaded'' @ [LF])]))
   \<and> (4 \<le> cmdargc \<and> plain_path (xargv ! 2) \<and> length (xargv ! 2) < PATH_MAX (lim h)
        \<and> atoi_u8 (xargv ! 3) = Inr wp
        \<longrightarrow> (strcasecmp_eq (xargv ! 0) ''fddload''
              \<longrightarrow> ctrl_handle_command h line
                  = (if FDD_NUM (lim h) \<le> nat (v mod 256) then Inr [Send (''ERR invalid arguments'' @ [LF])]
                     else Inr [Floppy_mount (word_of_int v) (xargv ! 2) (Some wp),
                               Send (''OK fdd '' @ dec (nat (v mod 256)) @ '' loaded'' @ [LF])]))
          \<and> (strcasecmp_eq (xargv ! 0) ''moload''
              \<longrightarrow> ctrl_handle_command h line
                  = (if MO_NUM (lim h) \<le> nat (v mod 256) then Inr [Send (''ERR invalid arguments'' @ [LF])]
                     else Inr [Mo_mount (word_of_int v) (xargv ! 2) (Some wp),
                               Send (''OK mo '' @ dec (nat (v mod 256)) @ '' loaded'' @ [LF])]))
          \<and> (strcasecmp_eq (xargv ! 0) ''rdiskload''
              \<longrightarrow> ctrl_handle_command h line
                  = (if RDISK_NUM (lim h) \<le> nat (v mod 256) then Inr [Send (''ERR invalid arguments'' @ [LF])]
                     else Inr [Rdisk_mount (word_of_int v) (xargv ! 2) (Some wp),
                               Send (''OK rdisk '' @ dec (nat (v mod 256)) @ '' loaded'' @ [LF])]))
          \<and> (strcasecmp_eq (xargv ! 0) ''cartload''
              \<longrightarrow> ctrl_handle_command h line
                  = (if 2 \<le> nat (v mod 256) then Inr [Send (''ERR invalid arguments'' @ [LF])]
                     else Inr [Cartridge_mount (word_of_int v) (xargv ! 2) (Some wp),
                               Send (''OK cartridge '' @ dec (nat (v mod 256)) @ '' loaded'' @ [LF])])))"
proof -
  note len = ctrl_parse_line_cmdargc [OF p]
  note hp = handle_parsed [OF p, of h]
  note a8 = atoi_u8_of_atoi [OF a]
  note u = unat_u8_of_int [of v]
  have ej: "ctrl_handle_command h line
       = (if num \<le> nat (v mod 256) then Inr [Send (''ERR invalid drive id'' @ [LF])]
          else Inr [eject (word_of_int v), Send (''OK '' @ cls @ '' '' @ dec (nat (v mod 256)) @ '' ejected'' @ [LF])])"
    if "ctrl_dispatch h xargv cmdargc = eject_branch num eject cls xargv" for num eject cls
    using that by (simp add: hp eject_branch_id [OF a8] u)
  have cd: "strcasecmp_eq (xargv ! 0) ''cdload'' \<and> 3 \<le> cmdargc
        \<longrightarrow> ctrl_handle_command h line
            = (if CDROM_NUM (lim h) \<le> nat (v mod 256) then Inr [Send (''ERR invalid drive id'' @ [LF])]
               else if PATH_MAX (lim h) \<le> length (xargv ! 2) + 1
                  \<or> PATH_MAX (lim h) \<le> length (join_sp (drop 2 (take cmdargc xargv)))
               then Inr [Send (''ERR path too long'' @ [LF])]
               else Inr [Cdrom_mount (word_of_int v) (join_sp (drop 2 (take cmdargc xargv))),
                         Send (''OK cdrom '' @ dec (nat (v mod 256)) @ '' loaded'' @ [LF])])"
    using cdload_branch_id [OF _ len a8, of "lim h"] by (simp add: hp dispatch_cdload u)
  have ld: "ctrl_handle_command h line
       = (if num \<le> nat (v mod 256) then Inr [Send (''ERR invalid arguments'' @ [LF])]
          else Inr [mount (word_of_int v) (xargv ! 2) (Some wp),
                    Send (''OK '' @ cls @ '' '' @ dec (nat (v mod 256)) @ '' loaded'' @ [LF])])"
    if "ctrl_dispatch h xargv cmdargc = load3_branch (PATH_MAX (lim h)) num mount cls xargv cmdargc"
      and "4 \<le> cmdargc" "plain_path (xargv ! 2)" "length (xargv ! 2) < PATH_MAX (lim h)"
      "atoi_u8 (xargv ! 3) = Inr wp" for num mount cls
    using that load3_branch_plain_id [OF that(2) len that(3) that(4) a8 that(5), of num mount cls]
    by (simp add: hp u)
  show ?thesis
    using a8 u cd ej [OF dispatch_cdeject] ej [OF dispatch_fddeject] ej [OF dispatch_moeject]
      ej [OF dispatch_rdiskeject] ej [OF dispatch_carteject]
      ld [OF dispatch_fddload] ld [OF dispatch_moload] ld [OF dispatch_rdiskload]
      ld [OF dispatch_cartload]
    by simp
qed

theorem id_truncated_to_8_bits_witness:
  "atoi ''256'' = Inr 256 \<and> atoi ''257'' = Inr 257 \<and> atoi ''-255'' = Inr (- 255)
   \<and> atoi ''128'' = Inr 128
   \<and> ctrl_handle_command sample_host ''cdeject 256''
       = Inr [Cdrom_mount 0 [], Send (''OK cdrom 0 ejected'' @ [LF])]
   \<and> ctrl_handle_command sample_host ''cdeject 257''
       = Inr [Cdrom_mount 1 [], Send (''OK cdrom 1 ejected'' @ [LF])]
   \<and> ctrl_handle_command sample_host ''cdeject -255''
       = Inr [Cdrom_mount 1 [], Send (''OK cdrom 1 ejected'' @ [LF])]
   \<and> ctrl_handle_command sample_host ''cdeject 128'' = Inr [Send (''ERR invalid drive id'' @ [LF])]
   \<and> ctrl_handle_command sample_host ''cdload 257 a.iso''
       = Inr [Cdrom_mount 1 ''a.iso'', Send (''OK cdrom 1 loaded'' @ [LF])]
   \<and> ctrl_handle_command sample_host ''fddload 257 a.img 1''
       = Inr [Floppy_mount 1 ''a.img'' (Some 1), Send (''OK fdd 1 loaded'' @ [LF])]
   \<and> ctrl_handle_command sample_host ''fddload 128 a.img 1''
       = Inr [Send (''ERR invalid arguments'' @ [LF])]"
proof -
  have p: "ctrl_parse_line ''cdeject 256'' = Some ([''cdeject'', ''256''], 2)"
    "ctrl_parse_line ''cdeject 257'' = Some ([''cdeject'', ''257''], 2)"
    "ctrl_parse_line ''cdeject -255'' = Some ([''cdeject'', ''-255''], 2)"
    "ctrl_parse_line ''cdeject 128'' = Some ([''cdeject'', ''128''], 2)"
    "ctrl_parse_line ''cdload 257 a.iso'' = Some ([''cdload'', ''257'', ''a.iso''], 3)"
    "ctrl_parse_line ''fddload 257 a.img 1'' = Some ([''fddload'', ''257'', ''a.img'', ''1''], 4)"
    "ctrl_parse_line ''fddload 128 a.img 1'' = Some ([''fddload'', ''128'', ''a.img'', ''1''], 4)"
    by code_simp+
  have a: "atoi ''256'' = Inr 256" "atoi ''257'' = Inr 257" "atoi ''-255'' = Inr (- 255)"
    "atoi ''128'' = Inr 128"
    by code_simp+
  have w: "atoi_u8 ''1'' = Inr 1" by code_simp
  have c: "strcasecmp_eq ''cdeject'' ''cdeject''" "strcasecmp_eq ''cdload'' ''cdload''"
    "strcasecmp_eq ''fddload'' ''fddload''"
    by (simp_all add: strcasecmp_eq_def)
  have pl: "plain_path ''a.img''" by code_simp
  have l: "CDROM_NUM (lim sample_host) = 8" "FDD_NUM (lim sample_host) = 4"
    "PATH_MAX (lim sample_host) = 4096"
    by (simp_all add: sample_host_def sample_limits_def)
  have d: "dec 0 = ''0''" "dec (Suc 0) = ''1''" by code_simp+
  have j: "join_sp [''a.iso''] = ''a.iso''" by code_simp
  from id_truncated_to_8_bits [OF p(1), of 256 sample_host] a c l
  have r1: "ctrl_handle_command sample_host ''cdeject 256''
       = Inr [Cdrom_mount 0 [], Send (''OK cdrom 0 ejected'' @ [LF])]"
    by (simp add: d)
  from id_truncated_to_8_bits [OF p(2), of 257 sample_host] a c l
  have r2: "ctrl_handle_command sample_host ''cdeject 257''
       = Inr [Cdrom_mount 1 [], Send (''OK cdrom 1 ejected'' @ [LF])]"
    by (simp add: d)
  from id_truncated_to_8_bits [OF p(3), of "- 255" sample_host] a c l
  have r3: "ctrl_handle_command sample_host ''cdeject -255''
       = Inr [Cdrom_mount 1 [], Send (''OK cdrom 1 ejected'' @ [LF])]"
    by (simp add: d)
  from id_truncated_to_8_bits [OF p(4), of 128 sample_host] a c l
  have r4: "ctrl_handle_command sample_host ''cdeject 128'' = Inr [Send (''ERR invalid drive id'' @ [LF])]"
    by simp
  from id_truncated_to_8_bits [OF p(5), of 257 sample_host] a c l
  have r5: "ctrl_handle_command sample_host ''cdload 257 a.iso''
       = Inr [Cdrom_mount 1 ''a.iso'', Send (''OK cdrom 1 loaded'' @ [LF])]"
    by (simp add: d j)
  from id_truncated_to_8_bits [OF p(6), of 257 sample_host 1] a c l w pl
  have r6: "ctrl_handle_command sample_host ''fddload 257 a.img 1''
       = Inr [Floppy_mount 1 ''a.img'' (Some 1), Send (''OK fdd 1 loaded'' @ [LF])]"
    by (simp add: d)
  from id_truncated_to_8_bits [OF p(7), of 128 sample_host 1] a c l w pl
  have r7: "ctrl_handle_command sample_host ''fddload 128 a.img 1''
       = Inr [Send (''ERR invalid arguments'' @ [LF])]"
    by simp
  from a r1 r2 r3 r4 r5 r6 r7 show ?thesis by simp
qed

section \<open>The quoted path\<close>

text \<open>
  The loop of the quoted branch, followed up to the first closing token \<open>k\<close>: the tokens
  from \<open>c\<close> to \<open>k\<close> are appended without their leading quotes, with single spaces
  between them, and the flag is read from token \<open>k + 1\<close> when there is one.
\<close>

lemma strip_lead_length: "length (strip_lead t) \<le> length t"
  by (simp add: strip_lead_def)

lemma join_sp_last: "ts \<noteq> [] \<Longrightarrow> last ts \<noteq> [] \<Longrightarrow> join_sp ts \<noteq> [] \<and> last (join_sp ts) = last (last ts)"
  by (induction ts rule: join_sp.induct) auto

lemma join_sp_Cons2: "ts \<noteq> [] \<Longrightarrow> join_sp (t # ts) = t @ '' '' @ join_sp ts"
  by (cases ts) simp_all

lemma segment_Cons:
  assumes "c \<le> k" and "k < length xargv"
  shows "take (Suc k - c) (drop c xargv) = xargv ! c # take (k - c) (drop (Suc c) xargv)"
proof -
  from assms have "drop c xargv = xargv ! c # drop (Suc c) xargv"
    by (simp add: Cons_nth_drop_Suc)
  moreover from assms have "Suc k - c = Suc (k - c)" by simp
  ultimately show ?thesis by simp
qed

lemma media3_quoted_closing:
  assumes k: "k < cmdargc" and len: "cmdargc \<le> length xargv"
  shows "c \<le> k \<Longrightarrow> \<forall>j\<in>{c..<k}. \<not> closes (xargv ! j) \<Longrightarrow> closes (xargv ! k) \<Longrightarrow>
     fn = [] \<or> last fn = CHR '' '' \<Longrightarrow> fn \<noteq> [] \<or> strip_lead (xargv ! c) \<noteq> [] \<Longrightarrow>
     length fn + sum_list (map (\<lambda>t. Suc (length t)) (take (Suc k - c) (drop c xargv))) \<le> pmax \<Longrightarrow>
     media3_quoted pmax xargv cmdargc c fn err wp
       = (if k + 1 < cmdargc then
            (case atoi_u8 (xargv ! (k + 1)) of
               Inl f \<Rightarrow> Inl f
             | Inr w \<Rightarrow> Inr (fn @ join_sp (map strip_lead (take (Suc k - c) (drop c xargv))), Some w, err))
          else Inr (fn @ join_sp (map strip_lead (take (Suc k - c) (drop c xargv))), wp, err))"
proof (induction "k - c" arbitrary: c fn)
  case 0
  then have ck: "c = k" by simp
  let ?tok = "xargv ! k"
  from k len have seg: "take (Suc k - k) (drop k xargv) = [?tok]"
    using segment_Cons [of k k xargv] by simp
  from "0.prems"(6) ck seg have b: "length fn + Suc (length ?tok) \<le> pmax" by simp
  from "0.prems"(3) have cl: "strip_lead ?tok \<noteq> []" "is_quote (last (strip_lead ?tok))"
    by (simp_all add: closes_def)
  from b strip_lead_length [of ?tok]
  have sc: "strcat_fn pmax fn (strip_lead ?tok) = Inr (fn @ strip_lead ?tok)"
    by (simp add: strcat_fn_def)
  from cl have lc: "last_char (fn @ strip_lead ?tok) = Inr (last (strip_lead ?tok))"
    by (simp add: last_char_def)
  from b have e: "\<not> pmax \<le> length fn + length ?tok" by simp
  show ?case
    unfolding ck seg
    using k sc lc cl(2) e
    by (subst media3_quoted.simps) (simp add: strip_lead_def [symmetric] Let_def split: sum.splits)
next
  case (Suc n)
  then have ck: "c < k" by simp
  let ?tok = "xargv ! c"
  let ?fn2 = "fn @ strip_lead ?tok @ '' ''"
  from ck k len have seg: "take (Suc k - c) (drop c xargv) = ?tok # take (Suc k - Suc c) (drop (Suc c) xargv)"
    using segment_Cons [of c k xargv] by simp
  from ck k len have seg2: "take (Suc k - Suc c) (drop (Suc c) xargv)
      = xargv ! Suc c # take (k - Suc c) (drop (Suc (Suc c)) xargv)"
    using segment_Cons [of "Suc c" k xargv] by simp
  from Suc.prems(6) seg seg2
  have b: "length fn + Suc (length ?tok) + Suc 0 \<le> pmax"
    and b2: "length fn + Suc (length ?tok)
       + sum_list (map (\<lambda>t. Suc (length t)) (take (Suc k - Suc c) (drop (Suc c) xargv))) \<le> pmax"
    by simp_all
  from b strip_lead_length [of ?tok]
  have sc: "strcat_fn pmax fn (strip_lead ?tok) = Inr (fn @ strip_lead ?tok)"
    and sc2: "strcat_fn pmax (fn @ strip_lead ?tok) '' '' = Inr ?fn2"
    by (simp_all add: strcat_fn_def)
  from Suc.prems(5) have lc: "last_char (fn @ strip_lead ?tok) = Inr (last (fn @ strip_lead ?tok))"
    by (auto simp: last_char_def)
  from Suc.prems(2) ck have nc: "\<not> closes ?tok" by simp
  have nq: "\<not> is_quote (last (fn @ strip_lead ?tok))"
  proof (cases "strip_lead ?tok = []")
    case True
    with Suc.prems(4,5) show ?thesis by (auto simp: is_quote_def)
  next
    case False
    with nc show ?thesis by (simp add: closes_def)
  qed
  from b have e: "\<not> pmax \<le> length fn + length ?tok" by simp
  have ih: "media3_quoted pmax xargv cmdargc (Suc c) ?fn2 err wp
       = (if k + 1 < cmdargc then
            (case atoi_u8 (xargv ! (k + 1)) of
               Inl f \<Rightarrow> Inl f
             | Inr w \<Rightarrow> Inr (?fn2 @ join_sp (map strip_lead (take (Suc k - Suc c) (drop (Suc c) xargv))), Some w, err))
          else Inr (?fn2 @ join_sp (map strip_lead (take (Suc k - Suc c) (drop (Suc c) xargv))), wp, err))"
  proof (rule Suc.hyps(1))
    show "n = k - Suc c" using Suc.hyps(2) by simp
    show "Suc c \<le> k" using ck by simp
    show "\<forall>j\<in>{Suc c..<k}. \<not> closes (xargv ! j)" using Suc.prems(2) by simp
    show "closes (xargv ! k)" by (rule Suc.prems(3))
    show "?fn2 = [] \<or> last ?fn2 = CHR '' ''" by simp
    show "?fn2 \<noteq> [] \<or> strip_lead (xargv ! Suc c) \<noteq> []" by simp
    show "length ?fn2 + sum_list (map (\<lambda>t. Suc (length t)) (take (Suc k - Suc c) (drop (Suc c) xargv))) \<le> pmax"
      using b2 strip_lead_length [of ?tok] by simp
  qed
  have js: "fn @ join_sp (map strip_lead (take (Suc k - c) (drop c xargv)))
      = ?fn2 @ join_sp (map strip_lead (take (Suc k - Suc c) (drop (Suc c) xargv)))"
  proof -
    from seg2 have "map strip_lead (take (Suc k - Suc c) (drop (Suc c) xargv)) \<noteq> []" by simp
    from join_sp_Cons2 [OF this, of "strip_lead ?tok"] show ?thesis
      by (simp only: seg list.map append_assoc)
  qed
  from ck k have cc: "c < cmdargc" by simp
  show ?case
    unfolding js
    using cc sc sc2 lc nq e ih
    by (subst media3_quoted.simps) (simp add: strip_lead_def [symmetric] Let_def split: sum.splits)
qed


lemma media3_quoted_path:
  assumes len: "cmdargc \<le> length xargv" and a: "atoi_u8 (xargv ! 1) = Inr id8"
    and q: "starts_quoted (xargv ! 2)" and ne: "strip_lead (xargv ! 2) \<noteq> []"
    and k: "2 \<le> k" "k < cmdargc"
    and nc: "\<forall>j\<in>{2..<k}. \<not> closes (xargv ! j)" and cl: "closes (xargv ! k)"
    and fit: "sum_list (map (\<lambda>t. Suc (length t)) (take (k - 1) (drop 2 xargv))) \<le> pmax"
    and wp: "k + 1 < cmdargc \<longrightarrow> atoi_u8 (xargv ! (k + 1)) = Inr w"
  shows "ctrl_process_media_commands_3 pmax [] xargv cmdargc
     = Inr (id8, butlast (join_sp (map strip_lead (take (k - 1) (drop 2 xargv)))),
            if k + 1 < cmdargc then Some w else None, False)"
proof -
  let ?seg = "take (k - 1) (drop 2 xargv)"
  let ?path = "join_sp (map strip_lead ?seg)"
  from k have sk: "Suc k - 2 = k - 1" by simp
  from fit sk have fit': "length ([]::string) + sum_list (map (\<lambda>t. Suc (length t)) (take (Suc k - 2) (drop 2 xargv))) \<le> pmax"
    by simp
  from media3_quoted_closing [OF k(2) len k(1) nc cl _ _ fit', of False None] ne wp
  have loop: "media3_quoted pmax xargv cmdargc 2 [] False None
      = Inr (?path, if k + 1 < cmdargc then Some w else None, False)"
    by (simp add: sk)
  from k len have segne: "?seg \<noteq> []" by auto
  have "last ?seg = xargv ! k"
  proof -
    from k len have l: "length ?seg = k - 1" by simp
    from k have i: "2 + (k - 1 - 1) = k" by simp
    from segne have "last ?seg = ?seg ! (length ?seg - 1)" by (rule last_conv_nth)
    also from k len have "\<dots> = drop 2 xargv ! (k - 1 - 1)" by (simp only: l) simp
    also from k len have "\<dots> = xargv ! (2 + (k - 1 - 1))" by (intro nth_drop) simp
    finally show ?thesis by (simp only: i)
  qed
  with segne have "last (map strip_lead ?seg) = strip_lead (xargv ! k)"
    by (simp add: last_map)
  with cl segne join_sp_last [of "map strip_lead ?seg"]
  have "?path \<noteq> []" "is_quote (last ?path)"
    by (simp_all add: closes_def)
  with a q loop show ?thesis
    by (simp add: ctrl_process_media_commands_3_def last_char_def)
qed

lemma media3_unquoted_path:
  assumes "atoi_u8 (xargv ! 1) = Inr id8" and "\<not> starts_quoted (xargv ! 2)" and "xargv ! 2 \<noteq> []"
    and "length (xargv ! 2) < pmax" and "atoi_u8 (xargv ! 3) = Inr w"
  shows "ctrl_process_media_commands_3 pmax [] xargv cmdargc
     = Inr (id8, if is_quote (last (xargv ! 2)) then butlast (xargv ! 2) else xargv ! 2, Some w, False)"
  using assms by (simp add: ctrl_process_media_commands_3_def last_char_def)

text \<open>
  Claim C2, as the code has it. When the third token begins with a quote character (and is
  more than that character), the parser appends the tokens from the third on, each without
  its own leading quote character if it has one, with single spaces between them, up to the
  first token that then ends in a quote character, either of the two whatever the
  opening one was. The path is that text without its final quote; the write-protect flag
  is read from the token right after the closing token, and is left unset when the closing
  token is the last one. When the third token is not empty and does not begin with a
  quote, the path is the third token, without a trailing quote character if it has one,
  and the flag is read from the fourth token. (In both cases the text has to fit the path
  buffer.)
\<close>

theorem quoted_path_parsing:
  assumes "4 \<le> cmdargc" and "cmdargc \<le> length xargv" and "atoi_u8 (xargv ! 1) = Inr id8"
  shows
    "(starts_quoted (xargv ! 2) \<and> strip_lead (xargv ! 2) \<noteq> []
        \<and> 2 \<le> k \<and> k < cmdargc \<and> (\<forall>j\<in>{2..<k}. \<not> closes (xargv ! j)) \<and> closes (xargv ! k)
        \<and> sum_list (map (\<lambda>t. Suc (length t)) (take (k - 1) (drop 2 xargv))) \<le> pmax
        \<and> (k + 1 < cmdargc \<longrightarrow> atoi_u8 (xargv ! (k + 1)) = Inr w)
      \<longrightarrow> ctrl_process_media_commands_3 pmax [] xargv cmdargc
          = Inr (id8, butlast (join_sp (map strip_lead (take (k - 1) (drop 2 xargv)))),
                 if k + 1 < cmdargc then Some w else None, False))
   \<and> (\<not> starts_quoted (xargv ! 2) \<and> xargv ! 2 \<noteq> [] \<and> length (xargv ! 2) < pmax
        \<and> atoi_u8 (xargv ! 3) = Inr w
      \<longrightarrow> ctrl_process_media_commands_3 pmax [] xargv cmdargc
          = Inr (id8, if is_quote (last (xargv ! 2)) then butlast (xargv ! 2) else xargv ! 2,
                 Some w, False))"
  using media3_quoted_path [OF assms(2,3), of k pmax w]
    media3_unquoted_path [OF assms(3), of pmax w cmdargc]
  by blast

theorem quoted_path_parsing_witness:
  "ctrl_parse_line (''fddload 0 '' @ [CHR 0x27] @ ''/path with space.img'' @ [CHR 0x27] @ '' 1'')
     = Some ([''fddload'', ''0'', CHR 0x27 # ''/path'', ''with'', ''space.img'' @ [CHR 0x27], ''1''], 6)
   \<and> ctrl_process_media_commands_3 4096 []
        [''fddload'', ''0'', CHR 0x27 # ''/path'', ''with'', ''space.img'' @ [CHR 0x27], ''1''] 6
     = Inr (0, ''/path with space.img'', Some 1, False)
   \<and> ctrl_process_media_commands_3 4096 [] [''fddload'', ''0'', ''a.img'', ''1''] 4
     = Inr (0, ''a.img'', Some 1, False)"
proof -
  let ?q = "[''fddload'', ''0'', CHR 0x27 # ''/path'', ''with'', ''space.img'' @ [CHR 0x27], ''1'']"
  let ?u = "[''fddload'', ''0'', ''a.img'', ''1'']"
  have p: "ctrl_parse_line (''fddload 0 '' @ [CHR 0x27] @ ''/path with space.img'' @ [CHR 0x27] @ '' 1'')
     = Some (?q, 6)" by code_simp
  have l1: "(4::nat) \<le> 6" "6 \<le> length ?q" by simp_all
  have a1: "atoi_u8 (?q ! 1) = Inr 0" by code_simp
  have h1: "starts_quoted (?q ! 2) \<and> strip_lead (?q ! 2) \<noteq> []
        \<and> (2::nat) \<le> 4 \<and> (4::nat) < 6 \<and> (\<forall>j\<in>{2..<4}. \<not> closes (?q ! j)) \<and> closes (?q ! 4)
        \<and> sum_list (map (\<lambda>t. Suc (length t)) (take (4 - 1) (drop 2 ?q))) \<le> 4096
        \<and> (4 + 1 < (6::nat) \<longrightarrow> atoi_u8 (?q ! (4 + 1)) = Inr 1)"
    by code_simp
  have v1: "butlast (join_sp (map strip_lead (take (4 - 1) (drop 2 ?q)))) = ''/path with space.img''"
    by code_simp
  from quoted_path_parsing [OF l1 a1, of 4 4096 1] h1
  have r1: "ctrl_process_media_commands_3 4096 [] ?q 6 = Inr (0, ''/path with space.img'', Some 1, False)"
    by (simp only: v1) simp
  have l2: "(4::nat) \<le> 4" "4 \<le> length ?u" by simp_all
  have a2: "atoi_u8 (?u ! 1) = Inr 0" by code_simp
  have h2: "\<not> starts_quoted (?u ! 2) \<and> ?u ! 2 \<noteq> [] \<and> length (?u ! 2) < 4096
        \<and> atoi_u8 (?u ! 3) = Inr 1"
    by code_simp
  have v2: "(if is_quote (last (?u ! 2)) then butlast (?u ! 2) else ?u ! 2) = ''a.img''"
    by code_simp
  from quoted_path_parsing [OF l2 a2, of 4 4096 1] h2
  have r2: "ctrl_process_media_commands_3 4096 [] ?u 4 = Inr (0, ''a.img'', Some 1, False)"
    by (simp only: v2) simp
  from p r1 r2 show ?thesis by simp
qed

text \<open>
  Claim C2 as stated fails: in \<^verbatim>\<open>fddload 0 'a" b' 1\<close> the third token opens with a single
  quote and ends in a double quote. The parser stops at that token: the path is \<^verbatim>\<open>a\<close> and
  the flag is read from the next token, \<^verbatim>\<open>b'\<close>, which \<^verbatim>\<open>atoi\<close> reads as 0. It does not go
  on to the token ending in the single quote.
\<close>

theorem other_quote_closes_counterexample:
  "ctrl_parse_line (''fddload 0 '' @ [CHR 0x27, CHR ''a'', CHR 0x22] @ '' b'' @ [CHR 0x27] @ '' 1'')
     = Some ([''fddload'', ''0'', [CHR 0x27, CHR ''a'', CHR 0x22], [CHR ''b'', CHR 0x27], ''1''], 5)
   \<and> ctrl_process_media_commands_3 4096 []
        [''fddload'', ''0'', [CHR 0x27, CHR ''a'', CHR 0x22], [CHR ''b'', CHR 0x27], ''1''] 5
     = Inr (0, ''a'', Some 0, False)
   \<and> ctrl_handle_command sample_host
        (''fddload 0 '' @ [CHR 0x27, CHR ''a'', CHR 0x22] @ '' b'' @ [CHR 0x27] @ '' 1'')
     = Inr [Floppy_mount 0 ''a'' (Some 0), Send (''OK fdd 0 loaded'' @ [LF])]"
  by code_simp

end
